theory Spec2Isabelle
  imports Main "HOL-Library.List_Lexorder" "HOL-Library.Char_ord"
begin

section \<open>Data model\<close>

text \<open>
  Identifiers are MongoDB ObjectIds. The handlers only compare them for equality and
  splice them into event names, so an identifier is modelled by its string rendering.
\<close>

type_synonym object_id = string

text \<open>
  \<^verbatim>\<open>models/Task.js\<close>: the fields of \<^verbatim>\<open>TaskSchema\<close>, the document's \<^verbatim>\<open>_id\<close>
  (here \<open>task_id\<close>) and the two fields added by \<^verbatim>\<open>{ timestamps: true }\<close>.
  Times are milliseconds since the epoch, as in a JavaScript \<^verbatim>\<open>Date\<close>.
\<close>

record task =
  task_id :: object_id
  title :: string
  description :: "string option"
  status :: string
  dueDate :: "int option"
  owner :: object_id
  sharedWith :: "object_id list"
  attachments :: "(string \<times> string) list"
  createdAt :: int
  updatedAt :: int

text \<open>
  \<^verbatim>\<open>models/User.js\<close>: \<^verbatim>\<open>UserSchema\<close> with the document's \<^verbatim>\<open>_id\<close>. Its timestamps
  are read by no handler and are left out.
\<close>

record user =
  user_id :: object_id
  username :: string
  password :: string

text \<open>
  \<^verbatim>\<open>frontend/socket.js\<close>: a connected Socket.IO client. \<open>listeners\<close> holds the event
  names it has registered with \<^verbatim>\<open>socket.on\<close>, in order; \<open>received\<close> logs every
  invocation of a registered callback as the pair of event name and message.
\<close>

record client =
  listeners :: "string list"
  received :: "(string \<times> string) list"

text \<open>
  The server: the two collections, the sockets connected to \<^verbatim>\<open>io\<close>, and the log of
  \<^verbatim>\<open>io.emit\<close> calls (event name, message of the payload).
\<close>

record server_state =
  tasks :: "task list"
  users :: "user list"
  sockets :: "client list"
  emitted :: "(string \<times> string) list"

text \<open>
  What a handler sends: \<^verbatim>\<open>res.status(n).json({ msg: m })\<close> is \<open>Status n m\<close>,
  \<^verbatim>\<open>res.json(x)\<close> is \<open>Json x\<close> and carries the default status 200.
\<close>

datatype 'a response = Status nat string | Json 'a

fun status_code :: "'a response \<Rightarrow> nat" where
  "status_code (Status n m) = n"
| "status_code (Json x) = 200"

text \<open>
  The calls that can throw for reasons outside the program (the store is down, the
  socket server fails). Each flag says that the call throws when it is reached.
\<close>

record faults =
  task_find_fails :: bool
  task_save_fails :: bool
  emit_fails :: bool
  aggregate_fails :: bool
  user_find_fails :: bool

section \<open>The store and the notification channel\<close>

text \<open>
  \<^verbatim>\<open>Task.findById(id)\<close>: the document with that \<^verbatim>\<open>_id\<close>, or null. The path parameter
  is taken in the rendering of the stored identifier.
\<close>

definition findById :: "object_id \<Rightarrow> task list \<Rightarrow> task option" where
  "findById i ts = find (\<lambda>t. task_id t = i) ts"

text \<open>\<^verbatim>\<open>task.save()\<close> on a loaded document: the stored document with its \<^verbatim>\<open>_id\<close> is replaced.\<close>

fun save :: "task \<Rightarrow> task list \<Rightarrow> task list" where
  "save t [] = []"
| "save t (d # ds) = (if task_id d = task_id t then t # ds else d # save t ds)"

text \<open>
  A socket that gets the packet of event \<open>ev\<close> calls each callback registered under
  that name once.
\<close>

definition deliver :: "string \<Rightarrow> string \<Rightarrow> client \<Rightarrow> client" where
  "deliver ev m c =
     c\<lparr>received := received c @ map (\<lambda>l. (l, m)) (filter (\<lambda>l. l = ev) (listeners c))\<rparr>"

text \<open>\<^verbatim>\<open>io.emit(ev, { message: m })\<close>: the packet goes to every connected socket.\<close>

definition io_emit :: "string \<Rightarrow> string \<Rightarrow> server_state \<Rightarrow> server_state" where
  "io_emit ev m st =
     st\<lparr>sockets := map (deliver ev m) (sockets st), emitted := emitted st @ [(ev, m)]\<rparr>"

text \<open>\<^verbatim>\<open>listenForNotifications(userId, callback)\<close> is \<^verbatim>\<open>socket.on(`notify:${userId}`, callback)\<close>.\<close>

definition listenForNotifications :: "object_id \<Rightarrow> client \<Rightarrow> client" where
  "listenForNotifications userId c = c\<lparr>listeners := listeners c @ [''notify:'' @ userId]\<rparr>"

text \<open>\<^verbatim>\<open>const socket = io('http://localhost:5000')\<close>: a new socket, with no listener yet.\<close>

definition connection :: client where
  "connection = \<lparr>listeners = [], received = []\<rparr>"

text \<open>
  The cast of a request string to an ObjectId, which Mongoose applies when a value is
  pushed on an array of ObjectIds: a string of 24 hexadecimal digits, in either case,
  becomes the identifier, whose rendering is in lower case; for any other string the
  cast throws a CastError (\<open>None\<close>).
\<close>

definition is_hex_digit :: "char \<Rightarrow> bool" where
  "is_hex_digit c = (c \<in> set ''0123456789abcdefABCDEF'')"

definition lower_hex :: "char \<Rightarrow> char" where
  "lower_hex c =
     (if c = CHR ''A'' then CHR ''a'' else if c = CHR ''B'' then CHR ''b''
      else if c = CHR ''C'' then CHR ''c'' else if c = CHR ''D'' then CHR ''d''
      else if c = CHR ''E'' then CHR ''e'' else if c = CHR ''F'' then CHR ''f'' else c)"

definition castObjectId :: "string \<Rightarrow> object_id option" where
  "castObjectId s =
     (if length s = 24 \<and> list_all is_hex_digit s then Some (map lower_hex s) else None)"

section \<open>Sharing a task\<close>

definition share_message :: "task \<Rightarrow> string" where
  "share_message t =
     ''A task titled '' @ [CHR 0x22] @ title t @ [CHR 0x22] @ '' was shared with you.''"

text \<open>
  The handler of \<^verbatim>\<open>PUT /:id/share\<close>, after \<open>authMiddleware\<close> has attached \<open>req_user\<close>.
  \<open>now\<close> is the clock read by \<^verbatim>\<open>save\<close> for \<^verbatim>\<open>updatedAt\<close>. A null result of
  \<^verbatim>\<open>findById\<close> makes \<^verbatim>\<open>task.owner\<close> throw a TypeError, which the \<^verbatim>\<open>catch\<close> turns
  into the same 500 as any other exception. \<^verbatim>\<open>task.sharedWith.includes(userIdToShare)\<close>
  compares the string of the request, as sent, with the rendering of each stored
  identifier; \<^verbatim>\<open>push\<close> casts the string and stores the identifier, or throws; the
  name of the event is built from the string of the request.
\<close>

definition share ::
  "faults \<Rightarrow> int \<Rightarrow> user \<Rightarrow> object_id \<Rightarrow> string \<Rightarrow> server_state
     \<Rightarrow> task response \<times> server_state" where
  "share f now req_user i userIdToShare st =
     (if task_find_fails f then (Status 500 ''Error sharing task'', st)
      else case findById i (tasks st) of
        None \<Rightarrow> (Status 500 ''Error sharing task'', st)
      | Some t \<Rightarrow>
          if owner t \<noteq> user_id req_user then (Status 403 ''Forbidden'', st)
          else if userIdToShare \<notin> set (sharedWith t) then
            (case castObjectId userIdToShare of
               None \<Rightarrow> (Status 500 ''Error sharing task'', st)
             | Some target \<Rightarrow>
                 if task_save_fails f then (Status 500 ''Error sharing task'', st)
                 else
                   let t' = t\<lparr>sharedWith := sharedWith t @ [target], updatedAt := now\<rparr>;
                       st' = st\<lparr>tasks := save t' (tasks st)\<rparr>
                   in if emit_fails f then (Status 500 ''Error sharing task'', st')
                      else (Json t',
                            io_emit (''notify:'' @ userIdToShare) (share_message t') st'))
          else (Json t, st))"

section \<open>The list of tasks shared with the requester\<close>

text \<open>The handler of \<^verbatim>\<open>GET /shared\<close>: \<^verbatim>\<open>Task.find({ sharedWith: req.user._id })\<close>.\<close>

definition shared :: "faults \<Rightarrow> user \<Rightarrow> server_state \<Rightarrow> task list response" where
  "shared f req_user st =
     (if task_find_fails f then Status 500 ''Error fetching shared tasks''
      else Json (filter (\<lambda>t. user_id req_user \<in> set (sharedWith t)) (tasks st)))"

section \<open>Authentication middleware\<close>

text \<open>
  \<^verbatim>\<open>s.split(c)\<close> of JavaScript for a separator of one character: the pieces between
  the occurrences of \<open>c\<close>, empty pieces included; never the empty list.
\<close>

fun split_on :: "char \<Rightarrow> string \<Rightarrow> string list" where
  "split_on c [] = [[]]"
| "split_on c (x # xs) =
     (if x = c then [] # split_on c xs
      else case split_on c xs of [] \<Rightarrow> [[x]] | w # ws \<Rightarrow> (x # w) # ws)"

text \<open>
  \<^verbatim>\<open>req.headers.authorization?.split(' ')[1]\<close>: \<open>None\<close> is \<^verbatim>\<open>undefined\<close>, for a
  missing header or a header without a second piece.
\<close>

definition token_of :: "string option \<Rightarrow> string option" where
  "token_of authorization =
     (case authorization of
        None \<Rightarrow> None
      | Some a \<Rightarrow> (case split_on (CHR '' '') a of p # tok # ps \<Rightarrow> Some tok | _ \<Rightarrow> None))"

text \<open>\<^verbatim>\<open>User.findById(id)\<close>: the user with that \<^verbatim>\<open>_id\<close>, or null.\<close>

definition findUserById :: "object_id \<Rightarrow> user list \<Rightarrow> user option" where
  "findUserById i us = find (\<lambda>u. user_id u = i) us"

text \<open>
  What the middleware does with a request: it answers itself (\<open>Respond\<close>), or it calls
  \<^verbatim>\<open>next()\<close> with the user it has put in \<^verbatim>\<open>req.user\<close> (\<open>Next\<close>).
\<close>

datatype auth_result = Respond nat string | Next user

text \<open>
  \<open>authMiddleware\<close>. \<open>verify\<close> stands for \<^verbatim>\<open>jwt.verify(token, process.env.JWT_SECRET)\<close>
  followed by \<^verbatim>\<open>.id\<close>: \<open>None\<close> when the library throws, else the identifier in the
  payload. \<^verbatim>\<open>!token\<close> holds for \<^verbatim>\<open>undefined\<close> and for the empty string. Every
  exception inside the \<^verbatim>\<open>try\<close>, also one thrown by the store, ends in the same 401.
\<close>

definition authMiddleware ::
  "(string \<Rightarrow> object_id option) \<Rightarrow> faults \<Rightarrow> string option \<Rightarrow> user list \<Rightarrow> auth_result" where
  "authMiddleware verify f authorization us =
     (case token_of authorization of
        None \<Rightarrow> Respond 401 ''No token provided''
      | Some token \<Rightarrow>
          if token = [] then Respond 401 ''No token provided''
          else (case verify token of
                  None \<Rightarrow> Respond 401 ''Invalid token''
                | Some i \<Rightarrow>
                    if user_find_fails f then Respond 401 ''Invalid token''
                    else (case findUserById i us of
                            None \<Rightarrow> Respond 401 ''Invalid token''
                          | Some u \<Rightarrow> Next u)))"

text \<open>
  Express runs \<^verbatim>\<open>router.put(path, authMiddleware, handler)\<close> as a chain: the handler
  is called only through \<^verbatim>\<open>next()\<close>.
\<close>

definition route ::
  "auth_result \<Rightarrow> (user \<Rightarrow> server_state \<Rightarrow> 'a response \<times> server_state)
     \<Rightarrow> server_state \<Rightarrow> 'a response \<times> server_state" where
  "route auth handler st =
     (case auth of Respond n m \<Rightarrow> (Status n m, st) | Next u \<Rightarrow> handler u st)"

section \<open>Analytics\<close>

text \<open>
  The stage \<^verbatim>\<open>{ $group: { _id: key, count: { $sum: 1 } } }\<close>: one pair for each key
  that occurs, with the number of documents that have it. MongoDB promises no order of
  the groups; the model lists them by first occurrence.
\<close>

fun tally :: "'k \<Rightarrow> ('k \<times> nat) list \<Rightarrow> ('k \<times> nat) list" where
  "tally k [] = [(k, 1)]"
| "tally k ((k', n) # gs) = (if k' = k then (k', Suc n) # gs else (k', n) # tally k gs)"

definition group_count :: "('d \<Rightarrow> 'k) \<Rightarrow> 'd list \<Rightarrow> ('k \<times> nat) list" where
  "group_count key ds = foldl (\<lambda>gs d. tally (key d) gs) [] ds"

text \<open>The handler of \<^verbatim>\<open>GET /overview\<close>.\<close>

definition overview :: "faults \<Rightarrow> user \<Rightarrow> server_state \<Rightarrow> (string \<times> nat) list response" where
  "overview f req_user st =
     (if aggregate_fails f then Status 500 ''Analytics error''
      else Json (group_count status (filter (\<lambda>t. owner t = user_id req_user) (tasks st))))"

definition msPerDay :: int where
  "msPerDay = 86400000"

text \<open>
  The time zone of the server, as a JavaScript \<^verbatim>\<open>Date\<close> uses it: the offset of local
  time from UTC in milliseconds, once as a function of the UTC instant (to read a local
  time) and once as a function of the local time (to turn it back into an instant).
\<close>

record time_zone =
  offset_at_instant :: "int \<Rightarrow> int"
  offset_at_local :: "int \<Rightarrow> int"

text \<open>
  \<^verbatim>\<open>const sevenDaysAgo = new Date(); sevenDaysAgo.setDate(sevenDaysAgo.getDate() - 7)\<close>.
  \<^verbatim>\<open>getDate\<close> reads the day of the month of the local time; \<^verbatim>\<open>setDate\<close> with that day less
  seven builds the local time with the same time of day seven calendar days earlier,
  that is the local time less seven times 24 hours, and turns it into an instant with the
  offset in force at that local time.
\<close>

definition sevenDaysAgo :: "time_zone \<Rightarrow> int \<Rightarrow> int" where
  "sevenDaysAgo tz now =
     (let local = now + offset_at_instant tz now;
          moved = local - 7 * msPerDay
      in moved - offset_at_local tz moved)"

text \<open>
  The Gregorian calendar, for the days counted from 0000-01-01 (day 0): the year is found
  by stepping through the years of the cycle of 400 years (146097 days) the day lies in,
  the month by stepping through the months of the year.
\<close>

definition leap_year :: "nat \<Rightarrow> bool" where
  "leap_year y = (y mod 4 = 0 \<and> (y mod 100 \<noteq> 0 \<or> y mod 400 = 0))"

definition days_in_year :: "nat \<Rightarrow> nat" where
  "days_in_year y = (if leap_year y then 366 else 365)"

definition month_lengths :: "nat \<Rightarrow> nat list" where
  "month_lengths y =
     [31, if leap_year y then 29 else 28, 31, 30, 31, 30, 31, 31, 30, 31, 30, 31]"

function year_of_day :: "nat \<Rightarrow> nat \<Rightarrow> nat \<times> nat" where
  "year_of_day y n =
     (if n < days_in_year y then (y, n) else year_of_day (y + 1) (n - days_in_year y))"
  by pat_completeness auto
termination
  by (relation "measure (\<lambda>(y, n). n)") (auto simp: days_in_year_def)

declare year_of_day.simps [simp del]

fun month_of_day :: "nat list \<Rightarrow> nat \<Rightarrow> nat \<Rightarrow> nat \<times> nat" where
  "month_of_day [] m n = (m, n)"
| "month_of_day (l # ls) m n = (if n < l then (m, n) else month_of_day ls (m + 1) (n - l))"

definition civil_of_day :: "nat \<Rightarrow> nat \<times> nat \<times> nat" where
  "civil_of_day n =
     (case year_of_day (400 * (n div 146097)) (n mod 146097) of
        (y, r) \<Rightarrow> (case month_of_day (month_lengths y) 1 r of (m, d) \<Rightarrow> (y, m, d + 1)))"

text \<open>The format \<^verbatim>\<open>%Y-%m-%d\<close>: four, two and two decimal digits.\<close>

definition digit :: "nat \<Rightarrow> char" where
  "digit n = ''0123456789'' ! (n mod 10)"

definition format_Ymd :: "nat \<times> nat \<times> nat \<Rightarrow> string" where
  "format_Ymd c =
     (case c of (y, m, d) \<Rightarrow>
        [digit (y div 1000), digit (y div 100), digit (y div 10), digit y] @ ''-'' @
        [digit (m div 10), digit m] @ ''-'' @ [digit (d div 10), digit d])"

text \<open>
  The number of the UTC calendar day of an instant, counted from 1970-01-01, which is
  day 719528 of the calendar above, and the rendering of such a day.
\<close>

definition utc_day :: "int \<Rightarrow> int" where
  "utc_day t = t div msPerDay"

definition format_utc_day :: "int \<Rightarrow> string" where
  "format_utc_day d = format_Ymd (civil_of_day (nat (d + 719528)))"

text \<open>
  MongoDB's \<^verbatim>\<open>{ $dateToString: { format: '%Y-%m-%d', date: t } }\<close>, which works in UTC: the
  rendering of the calendar day of \<open>t\<close>; the operator fails (\<open>None\<close>) for a date whose year
  is outside 0 to 9999.
\<close>

definition dateToString_Ymd :: "int \<Rightarrow> string option" where
  "dateToString_Ymd t =
     (if utc_day t + 719528 < 0 then None
      else if 9999 < fst (civil_of_day (nat (utc_day t + 719528))) then None
      else Some (format_utc_day (utc_day t)))"

text \<open>
  The days of the years 0000 to 9999, as numbers of UTC days, and the number of days of
  the first \<open>k\<close> years of a cycle of 400 years.
\<close>

definition day_in_range :: "int \<Rightarrow> bool" where
  "day_in_range d = (- 719528 \<le> d \<and> d < 2932897)"

definition cum :: "nat \<Rightarrow> nat" where
  "cum k = 365 * k + (k + 3) div 4 - (k + 99) div 100 + (k + 399) div 400"

text \<open>
  The handler of \<^verbatim>\<open>GET /trends\<close>: the pipeline matches the requester's tasks created at
  or after \<open>sevenDaysAgo\<close>, groups them by the rendering of their creation day and orders
  the groups by that key (\<^verbatim>\<open>{ $sort: { _id: 1 } }\<close>). An aggregation that fails, in the
  store or in the formatting of a date, ends in the \<^verbatim>\<open>catch\<close>.
\<close>

definition trends ::
  "time_zone \<Rightarrow> faults \<Rightarrow> int \<Rightarrow> user \<Rightarrow> server_state \<Rightarrow> (string \<times> nat) list response" where
  "trends tz f now req_user st =
     (if aggregate_fails f then Status 500 ''Trend error''
      else case those (map (\<lambda>t. dateToString_Ymd (createdAt t))
                  (filter (\<lambda>t. owner t = user_id req_user \<and> sevenDaysAgo tz now \<le> createdAt t)
                     (tasks st))) of
             None \<Rightarrow> Status 500 ''Trend error''
           | Some ids \<Rightarrow> Json (sort_key fst (group_count (\<lambda>k. k) ids)))"

section \<open>The protected routes\<close>

definition share_route ::
  "(string \<Rightarrow> object_id option) \<Rightarrow> faults \<Rightarrow> int \<Rightarrow> string option \<Rightarrow> object_id \<Rightarrow> object_id
     \<Rightarrow> server_state \<Rightarrow> task response \<times> server_state" where
  "share_route verify f now authorization i userIdToShare st =
     route (authMiddleware verify f authorization (users st))
       (\<lambda>req_user. share f now req_user i userIdToShare) st"

definition shared_route ::
  "(string \<Rightarrow> object_id option) \<Rightarrow> faults \<Rightarrow> string option
     \<Rightarrow> server_state \<Rightarrow> task list response \<times> server_state" where
  "shared_route verify f authorization st =
     route (authMiddleware verify f authorization (users st))
       (\<lambda>req_user s. (shared f req_user s, s)) st"

definition overview_route ::
  "(string \<Rightarrow> object_id option) \<Rightarrow> faults \<Rightarrow> string option
     \<Rightarrow> server_state \<Rightarrow> (string \<times> nat) list response \<times> server_state" where
  "overview_route verify f authorization st =
     route (authMiddleware verify f authorization (users st))
       (\<lambda>req_user s. (overview f req_user s, s)) st"

definition trends_route ::
  "(string \<Rightarrow> object_id option) \<Rightarrow> time_zone \<Rightarrow> faults \<Rightarrow> int \<Rightarrow> string option
     \<Rightarrow> server_state \<Rightarrow> (string \<times> nat) list response \<times> server_state" where
  "trends_route verify tz f now authorization st =
     route (authMiddleware verify f authorization (users st))
       (\<lambda>req_user s. (trends tz f now req_user s, s)) st"

section \<open>The task schema and the operations on tasks\<close>

text \<open>The \<^verbatim>\<open>enum\<close> of \<^verbatim>\<open>status\<close> in \<^verbatim>\<open>TaskSchema\<close> (and \<^verbatim>\<open>TASK_STATUS\<close> of the frontend).\<close>

definition TASK_STATUS :: "string list" where
  "TASK_STATUS = [''Pending'', ''In Progress'', ''Completed'']"

text \<open>
  The validators of \<^verbatim>\<open>TaskSchema\<close>: \<^verbatim>\<open>title\<close> is required, \<^verbatim>\<open>status\<close> is in the
  enumeration. (\<^verbatim>\<open>owner\<close> is required too; in the model every task has one.)
\<close>

definition schema_valid :: "task \<Rightarrow> bool" where
  "schema_valid t = (title t \<noteq> [] \<and> status t \<in> set TASK_STATUS)"

text \<open>
  The body the frontend sends to create or update a task (\<^verbatim>\<open>taskData\<close> in
  \<^verbatim>\<open>TaskForm\<close>); a field may be absent.
\<close>

record task_input =
  in_title :: "string option"
  in_description :: "string option"
  in_status :: "string option"
  in_dueDate :: "int option"

datatype rejection = Invalid | NotFound | NotAllowed

text \<open>
  Modelled from the spec: the handler of \<^verbatim>\<open>POST /api/tasks\<close> is not among the sources.
  A task is created for the requester, who becomes its owning user; the schema's default
  \<open>Pending\<close> fills a missing status, and a document the schema rejects is not stored.
  \<open>new_id\<close> is the identifier the store generates.
\<close>

definition createTask ::
  "object_id \<Rightarrow> int \<Rightarrow> user \<Rightarrow> task_input \<Rightarrow> server_state
     \<Rightarrow> (rejection + task) \<times> server_state" where
  "createTask new_id now req_user b st =
     (let t = \<lparr>task_id = new_id,
               title = (case in_title b of None \<Rightarrow> [] | Some x \<Rightarrow> x),
               description = in_description b,
               status = (case in_status b of None \<Rightarrow> ''Pending'' | Some s \<Rightarrow> s),
               dueDate = in_dueDate b,
               owner = user_id req_user,
               sharedWith = [], attachments = [],
               createdAt = now, updatedAt = now\<rparr>
      in if schema_valid t then (Inr t, st\<lparr>tasks := tasks st @ [t]\<rparr>)
         else (Inl Invalid, st))"

text \<open>
  Modelled from the spec: the handler of \<^verbatim>\<open>PUT /api/tasks/:id\<close> is not among the
  sources. The fields of the body replace those of the task, the owning user is
  immutable, the status stays in the enumeration (a document the schema rejects is not
  stored). The spec gives the owner the right to edit and says that no write
  restriction is enforced for shared users, so who may edit is the parameter \<open>may_edit\<close>.
\<close>

definition updateTask ::
  "(user \<Rightarrow> task \<Rightarrow> bool) \<Rightarrow> int \<Rightarrow> user \<Rightarrow> object_id \<Rightarrow> task_input \<Rightarrow> server_state
     \<Rightarrow> (rejection + task) \<times> server_state" where
  "updateTask may_edit now req_user i b st =
     (case findById i (tasks st) of
        None \<Rightarrow> (Inl NotFound, st)
      | Some t \<Rightarrow>
          if \<not> may_edit req_user t then (Inl NotAllowed, st)
          else
            let t' = t\<lparr>title := (case in_title b of None \<Rightarrow> title t | Some x \<Rightarrow> x),
                       description := (case in_description b of None \<Rightarrow> description t
                                       | Some d \<Rightarrow> Some d),
                       status := (case in_status b of None \<Rightarrow> status t | Some s \<Rightarrow> s),
                       dueDate := (case in_dueDate b of None \<Rightarrow> dueDate t | Some d \<Rightarrow> Some d),
                       updatedAt := now\<rparr>
            in if schema_valid t' then (Inr t', st\<lparr>tasks := save t' (tasks st)\<rparr>)
               else (Inl Invalid, st))"

fun remove_by_id :: "object_id \<Rightarrow> task list \<Rightarrow> task list" where
  "remove_by_id i [] = []"
| "remove_by_id i (d # ds) = (if task_id d = i then ds else d # remove_by_id i ds)"

text \<open>
  Modelled from the spec: the handler of \<^verbatim>\<open>DELETE /api/tasks/:id\<close> is not among the
  sources. The task with the identifier is removed from the store; who may delete is
  the parameter \<open>may_edit\<close>, as for the update.
\<close>

definition deleteTask ::
  "(user \<Rightarrow> task \<Rightarrow> bool) \<Rightarrow> user \<Rightarrow> object_id \<Rightarrow> server_state
     \<Rightarrow> (rejection + task) \<times> server_state" where
  "deleteTask may_edit req_user i st =
     (case findById i (tasks st) of
        None \<Rightarrow> (Inl NotFound, st)
      | Some t \<Rightarrow>
          if \<not> may_edit req_user t then (Inl NotAllowed, st)
          else (Inr t, st\<lparr>tasks := remove_by_id i (tasks st)\<rparr>))"

text \<open>The four operations that write tasks, and the state each leaves.\<close>

datatype operation =
    Create object_id int user task_input
  | Update "user \<Rightarrow> task \<Rightarrow> bool" int user object_id task_input
  | Share faults int user object_id object_id
  | Delete "user \<Rightarrow> task \<Rightarrow> bool" user object_id

fun apply_operation :: "operation \<Rightarrow> server_state \<Rightarrow> server_state" where
  "apply_operation (Create new_id now u b) st = snd (createTask new_id now u b st)"
| "apply_operation (Update g now u i b) st = snd (updateTask g now u i b st)"
| "apply_operation (Share f now u i v) st = snd (share f now u i v st)"
| "apply_operation (Delete g u i) st = snd (deleteTask g u i st)"

definition status_ok :: "task \<Rightarrow> bool" where
  "status_ok t = (status t \<in> set TASK_STATUS)"

text \<open>
  The task is the one a create operation makes: it has the generated identifier, the
  requester as owner, and the status of the body or else \<open>Pending\<close>.
\<close>

definition created_by :: "operation \<Rightarrow> task \<Rightarrow> bool" where
  "created_by op t =
     (case op of
        Create new_id now u b \<Rightarrow>
          task_id t = new_id \<and> owner t = user_id u
          \<and> status t = (case in_status b of None \<Rightarrow> ''Pending'' | Some s \<Rightarrow> s)
      | _ \<Rightarrow> False)"

section \<open>Example data\<close>

definition f_ok :: faults where
  "f_ok = \<lparr>task_find_fails = False, task_save_fails = False, emit_fails = False,
           aggregate_fails = False, user_find_fails = False\<rparr>"

definition f_emit_down :: faults where
  "f_emit_down = \<lparr>task_find_fails = False, task_save_fails = False, emit_fails = True,
           aggregate_fails = False, user_find_fails = False\<rparr>"

definition alice :: user where
  "alice = \<lparr>user_id = ''a1'', username = ''alice'', password = ''h1''\<rparr>"

definition bob :: user where
  "bob = \<lparr>user_id = ''b2'', username = ''bob'', password = ''h2''\<rparr>"

definition t1 :: task where
  "t1 = \<lparr>task_id = ''t1'', title = ''Report'', description = None, status = ''Pending'',
         dueDate = None, owner = ''a1'', sharedWith = [], attachments = [],
         createdAt = 1000, updatedAt = 1000\<rparr>"

text \<open>A well-formed identifier that no task of \<open>st0\<close> has.\<close>

definition missing_id :: object_id where
  "missing_id = ''64b7f0c2a1d3e4f5a6b7c8d9''"

definition st0 :: server_state where
  "st0 = \<lparr>tasks = [t1], users = [alice, bob],
          sockets = [\<lparr>listeners = [''notify:b2''], received = []\<rparr>,
                     \<lparr>listeners = [''notify:a1''], received = []\<rparr>,
                     \<lparr>listeners = [], received = []\<rparr>],
          emitted = []\<rparr>"

text \<open>
  The identifier of a user \<open>dave\<close>, as the store renders it and as a request may spell
  it in upper case.
\<close>

definition dave_id :: object_id where
  "dave_id = ''5f1a2b3c4d5e6f708192a3b4''"

definition dave_id_upper :: string where
  "dave_id_upper = ''5F1A2B3C4D5E6F708192A3B4''"

text \<open>The task \<open>t1\<close> when it is already shared with \<open>dave\<close>.\<close>

definition st0_shared :: server_state where
  "st0_shared = st0\<lparr>tasks := [t1\<lparr>sharedWith := [dave_id]\<rparr>]\<rparr>"

text \<open>
  Four connected clients: one has subscribed for \<open>dave\<close>, one has subscribed for him
  twice, one has subscribed for \<open>alice\<close>, one has not subscribed.
\<close>

definition st0_clients :: server_state where
  "st0_clients = st0\<lparr>sockets :=
       [listenForNotifications dave_id connection,
        listenForNotifications dave_id (listenForNotifications dave_id connection),
        listenForNotifications ''a1'' connection,
        connection]\<rparr>"

definition mk_task :: "object_id \<Rightarrow> object_id \<Rightarrow> string \<Rightarrow> int \<Rightarrow> task" where
  "mk_task i own s created =
     \<lparr>task_id = i, title = ''Task'', description = None, status = s, dueDate = None,
      owner = own, sharedWith = [], attachments = [], createdAt = created,
      updatedAt = created\<rparr>"

text \<open>
  A store for the analytics queries, read on 2025-06-15 at 15:06:40 UTC
  (1750000000000): \<open>alice\<close> owns two pending tasks and a completed one; \<open>bob\<close> owns two
  tasks of 2025-06-15, one of 2025-06-12 and one of 2025-06-04, older than seven days.
\<close>

definition st_an :: server_state where
  "st_an = \<lparr>tasks =
       [mk_task ''k1'' ''a1'' ''Pending'' 1749900000000,
        mk_task ''k4'' ''b2'' ''In Progress'' 1749950000000,
        mk_task ''k2'' ''a1'' ''Completed'' 1749600000000,
        mk_task ''k5'' ''b2'' ''Pending'' 1749000000000,
        mk_task ''k6'' ''b2'' ''Completed'' 1749700000000,
        mk_task ''k3'' ''a1'' ''Pending'' 1749910000000,
        mk_task ''k7'' ''b2'' ''Pending'' 1749960000000],
     users = [alice, bob], sockets = [], emitted = []\<rparr>"

text \<open>A server on UTC, and one on the time of New York in the spring of 2025, where the
  offset changes from five to four hours on 9 March at 07:00 UTC, 02:00 local time.\<close>

definition utc_zone :: time_zone where
  "utc_zone = \<lparr>offset_at_instant = (\<lambda>t. 0), offset_at_local = (\<lambda>t. 0)\<rparr>"

definition new_york_zone :: time_zone where
  "new_york_zone =
     \<lparr>offset_at_instant = (\<lambda>t. if t < 1741503600000 then - 18000000 else - 14400000),
      offset_at_local = (\<lambda>t. if t < 1741485600000 then - 18000000 else - 14400000)\<rparr>"

text \<open>A store whose only task bears a creation time later than the query of \<open>st_an\<close>.\<close>

definition st_future :: server_state where
  "st_future = \<lparr>tasks = [mk_task ''k8'' ''b2'' ''Pending'' 1750400000000],
     users = [alice, bob], sockets = [], emitted = []\<rparr>"

text \<open>A token verifier that knows one token of \<open>alice\<close> and one of a deleted user.\<close>

definition verify_demo :: "string \<Rightarrow> object_id option" where
  "verify_demo tok =
     (if tok = ''tok-a'' then Some ''a1'' else if tok = ''tok-z'' then Some ''z9'' else None)"

definition new_input :: task_input where
  "new_input = \<lparr>in_title = Some ''Plan'', in_description = None, in_status = None,
                in_dueDate = None\<rparr>"

section \<open>Facts about the store\<close>

lemma findById_task_id: "findById i ts = Some t \<Longrightarrow> task_id t = i"
  unfolding findById_def by (induction ts) (auto split: if_splits)

lemma findById_mem: "findById i ts = Some t \<Longrightarrow> t \<in> set ts"
  unfolding findById_def by (induction ts) (auto split: if_splits)

lemma findById_save:
  "findById i ts = Some t \<Longrightarrow> task_id t' = i \<Longrightarrow> findById i (save t' ts) = Some t'"
  unfolding findById_def by (induction ts) (auto split: if_splits)

lemma tasks_io_emit: "tasks (io_emit ev m st) = tasks st"
  by (simp add: io_emit_def)

lemma share_added:
  assumes "\<not> task_find_fails f" and "findById i (tasks st) = Some t"
    and "owner t = user_id req_user" and "u \<notin> set (sharedWith t)"
    and "castObjectId u = Some target" and "\<not> task_save_fails f"
  shows "share f now req_user i u st =
     (let t' = t\<lparr>sharedWith := sharedWith t @ [target], updatedAt := now\<rparr>;
          st' = st\<lparr>tasks := save t' (tasks st)\<rparr>
      in if emit_fails f then (Status 500 ''Error sharing task'', st')
         else (Json t', io_emit (''notify:'' @ u) (share_message t') st'))"
  using assms by (simp add: share_def)

text \<open>An identifier that resolves to no task always ends in the handler's \<^verbatim>\<open>catch\<close>.\<close>

lemma share_unresolved:
  "findById i (tasks st) = None \<Longrightarrow>
     share f now req_user i u st = (Status 500 ''Error sharing task'', st)"
  by (simp add: share_def)

lemma share_present:
  assumes "\<not> task_find_fails f" and "findById i (tasks st) = Some t"
    and "owner t = user_id req_user" and "u \<in> set (sharedWith t)"
  shows "share f now req_user i u st = (Json t, st)"
  using assms by (simp add: share_def)

text \<open>The two spellings of the identifier of \<open>dave\<close>.\<close>

lemma cast_dave: "castObjectId dave_id = Some dave_id"
  by (simp add: castObjectId_def dave_id_def is_hex_digit_def lower_hex_def)

lemma cast_dave_upper: "castObjectId dave_id_upper = Some dave_id"
  by (simp add: castObjectId_def dave_id_def dave_id_upper_def is_hex_digit_def lower_hex_def)

lemma dave_upper_differs: "dave_id_upper \<noteq> dave_id"
  by (simp add: dave_id_def dave_id_upper_def)

lemma received_deliver:
  "received (deliver ev m c) = received c @ replicate (count_list (listeners c) ev) (ev, m)"
proof -
  have "map (\<lambda>l. (l, m)) (filter (\<lambda>l. l = ev) ls) = replicate (count_list ls ev) (ev, m)" for ls
    by (induction ls) auto
  then show ?thesis by (simp add: deliver_def)
qed

lemma listeners_deliver: "listeners (deliver ev m c) = listeners c"
  by (simp add: deliver_def)

lemma count_prefixed: "count_list (map (\<lambda>v. p @ v) vs) (p @ u) = count_list vs u"
  by (induction vs) auto

text \<open>A client that has subscribed for the users \<open>vs\<close>, one call after the other.\<close>

lemma listeners_subscribed:
  "listeners (foldl (\<lambda>c v. listenForNotifications v c) c0 vs)
     = listeners c0 @ map (\<lambda>v. ''notify:'' @ v) vs"
  by (induction vs arbitrary: c0) (simp_all add: listenForNotifications_def)

lemma received_subscribed:
  "received (foldl (\<lambda>c v. listenForNotifications v c) c0 vs) = received c0"
  by (induction vs arbitrary: c0) (simp_all add: listenForNotifications_def)

lemma findUserById_mem: "findUserById i us = Some u \<Longrightarrow> u \<in> set us \<and> user_id u = i"
  unfolding findUserById_def by (induction us) (auto split: if_splits)

section \<open>Facts about grouping\<close>

lemma map_of_tally:
  "map_of (tally k gs) =
     (map_of gs)(k \<mapsto> (case map_of gs k of None \<Rightarrow> 1 | Some n \<Rightarrow> Suc n))"
  by (induction gs) (auto simp: fun_eq_iff)

lemma keys_tally: "set (map fst (tally k gs)) = insert k (set (map fst gs))"
  by (induction k gs rule: tally.induct) (force split: if_splits)+

lemma distinct_tally: "distinct (map fst gs) \<Longrightarrow> distinct (map fst (tally k gs))"
proof (induction gs)
  case Nil
  then show ?case by simp
next
  case (Cons g gs)
  obtain k' n where g: "g = (k', n)" by (cases g)
  have "k' \<notin> set (map fst gs)" using Cons.prems g by simp
  then have "k' \<noteq> k \<Longrightarrow> k' \<notin> set (map fst (tally k gs))"
    unfolding keys_tally by simp
  then show ?case using Cons g by auto
qed

lemma distinct_foldl_tally:
  "distinct (map fst gs) \<Longrightarrow> distinct (map fst (foldl (\<lambda>gs d. tally (key d) gs) gs ds))"
  by (induction ds arbitrary: gs) (auto simp: distinct_tally)

lemma map_of_foldl_tally:
  "map_of (foldl (\<lambda>gs d. tally (key d) gs) gs ds) k =
     (case map_of gs k of
        None \<Rightarrow> (if length (filter (\<lambda>d. key d = k) ds) = 0 then None
                  else Some (length (filter (\<lambda>d. key d = k) ds)))
      | Some n \<Rightarrow> Some (n + length (filter (\<lambda>d. key d = k) ds)))"
proof (induction ds arbitrary: gs)
  case Nil
  then show ?case by (simp split: option.splits)
next
  case (Cons d ds)
  show ?case
    by (simp add: Cons.IH map_of_tally split: option.splits)
qed

lemma distinct_group_count: "distinct (map fst (group_count key ds))"
  unfolding group_count_def by (rule distinct_foldl_tally) simp

lemma group_count_iff:
  "(k, n) \<in> set (group_count key ds) \<longleftrightarrow>
     n = length (filter (\<lambda>d. key d = k) ds) \<and> 0 < n"
proof -
  have "(k, n) \<in> set (group_count key ds) \<longleftrightarrow> map_of (group_count key ds) k = Some n"
    using distinct_group_count [of key ds] by simp
  also have "\<dots> \<longleftrightarrow> n = length (filter (\<lambda>d. key d = k) ds) \<and> 0 < n"
    unfolding group_count_def map_of_foldl_tally by auto
  finally show ?thesis .
qed

lemma distinct_keys_sort_key:
  "distinct (map fst gs) \<Longrightarrow> distinct (map fst (sort_key fst gs))"
  by (simp add: distinct_map)

section \<open>Facts about the calendar\<close>

lemma year_of_day_ge: "y \<le> fst (year_of_day y n)"
proof (induction y n rule: year_of_day.induct)
  case (1 y n)
  show ?case
  proof (cases "n < days_in_year y")
    case True
    then show ?thesis by (simp add: year_of_day.simps [of y n])
  next
    case False
    then show ?thesis using 1 by (simp add: year_of_day.simps [of y n])
  qed
qed

lemma year_of_day_rest: "snd (year_of_day y n) < days_in_year (fst (year_of_day y n))"
proof (induction y n rule: year_of_day.induct)
  case (1 y n)
  show ?case
  proof (cases "n < days_in_year y")
    case True
    then show ?thesis by (simp add: year_of_day.simps [of y n])
  next
    case False
    then show ?thesis using 1 by (simp add: year_of_day.simps [of y n])
  qed
qed

lemma year_of_day_strict:
  "n < n' \<Longrightarrow>
     fst (year_of_day y n) < fst (year_of_day y n')
     \<or> (fst (year_of_day y n) = fst (year_of_day y n')
         \<and> snd (year_of_day y n) < snd (year_of_day y n'))"
proof (induction y n arbitrary: n' rule: year_of_day.induct)
  case (1 y n)
  show ?case
  proof (cases "n < days_in_year y")
    case True
    note small = this
    show ?thesis
    proof (cases "n' < days_in_year y")
      case True
      then show ?thesis using small "1.prems"
        by (simp add: year_of_day.simps [of y n] year_of_day.simps [of y n'])
    next
      case False
      then have "year_of_day y n' = year_of_day (y + 1) (n' - days_in_year y)"
        by (simp add: year_of_day.simps [of y n'])
      then have "y < fst (year_of_day y n')"
        using year_of_day_ge [of "y + 1" "n' - days_in_year y"] by simp
      then show ?thesis using small by (simp add: year_of_day.simps [of y n])
    qed
  next
    case False
    then have big: "\<not> n' < days_in_year y" and less: "n - days_in_year y < n' - days_in_year y"
      using "1.prems" by auto
    show ?thesis
      using "1.IH" [OF False less] False big
      by (simp add: year_of_day.simps [of y n] year_of_day.simps [of y n'])
  qed
qed

lemma leap_year_cycle: "leap_year (400 * e + k) = leap_year k"
proof -
  have "(4 * (100 * e) + k) mod 4 = k mod 4" "(100 * (4 * e) + k) mod 100 = k mod 100"
    "(400 * e + k) mod 400 = k mod 400"
    by (simp_all only: mod_mult_self4)
  then show ?thesis by (simp add: leap_year_def)
qed

lemma ceil_div_Suc:
  assumes "0 < d"
  shows "(Suc k + (d - 1)) div d = (k + (d - 1)) div d + (if k mod d = 0 then 1 else 0)"
proof -
  define q where "q = k div d"
  define r where "r = k mod d"
  have d0: "d \<noteq> 0" using assms by simp
  have split: "\<And>x p. (x + p * d) div d = p + x div d"
    using d0 by simp
  have k: "k = r + q * d" by (simp add: q_def r_def)
  have r: "r < d" using assms by (simp add: r_def)
  have "Suc k + (d - 1) = r + (q + 1) * d" using assms k by simp
  then have "(Suc k + (d - 1)) div d = (q + 1) + r div d"
    using split [of r "q + 1"] by (simp only:)
  then have up: "(Suc k + (d - 1)) div d = q + 1" using r by simp
  show ?thesis
  proof (cases "r = 0")
    case True
    then have "k + (d - 1) = (d - 1) + q * d" using k by simp
    then have "(k + (d - 1)) div d = q + (d - 1) div d"
      using split [of "d - 1" q] by (simp only:)
    moreover have "(d - 1) div d = 0" using assms by simp
    ultimately show ?thesis using up True by (simp add: r_def)
  next
    case False
    then obtain r' where r': "r = Suc r'" by (cases r) auto
    have "k + (d - 1) = r' + (q + 1) * d" using k r' assms by simp
    then have "(k + (d - 1)) div d = (q + 1) + r' div d"
      using split [of r' "q + 1"] by (simp only:)
    moreover have "r' div d = 0" using r r' by simp
    ultimately show ?thesis using up False by (simp add: r_def)
  qed
qed

lemma mod_100_4: "k mod 100 = 0 \<Longrightarrow> k mod 4 = (0::nat)"
  using mod_mod_cancel [of 4 100 k] by simp

lemma mod_400_100: "k mod 400 = 0 \<Longrightarrow> k mod 100 = (0::nat)"
  using mod_mod_cancel [of 100 400 k] by simp

lemma centuries_le: "(k + 99) div 100 \<le> (k + 3) div (4::nat)"
proof (induction k)
  case 0
  then show ?case by simp
next
  case (Suc k)
  have a: "(Suc k + 3) div 4 = (k + 3) div 4 + (if k mod 4 = 0 then 1 else 0)"
    using ceil_div_Suc [of 4 k] by simp
  have b: "(Suc k + 99) div 100 = (k + 99) div 100 + (if k mod 100 = 0 then 1 else 0)"
    using ceil_div_Suc [of 100 k] by simp
  show ?case unfolding a b using Suc mod_100_4 [of k] by auto
qed

lemma cum_Suc: "cum (Suc k) = cum k + days_in_year (400 * e + k)"
proof -
  have a: "(Suc k + 3) div 4 = (k + 3) div 4 + (if k mod 4 = 0 then 1 else 0)"
    using ceil_div_Suc [of 4 k] by simp
  have b: "(Suc k + 99) div 100 = (k + 99) div 100 + (if k mod 100 = 0 then 1 else 0)"
    using ceil_div_Suc [of 100 k] by simp
  have c: "(Suc k + 399) div 400 = (k + 399) div 400 + (if k mod 400 = 0 then 1 else 0)"
    using ceil_div_Suc [of 400 k] by simp
  have diy: "days_in_year (400 * e + k) = days_in_year k"
    by (simp add: days_in_year_def leap_year_cycle)
  define A where "A = (k + 3) div 4"
  define B where "B = (k + 99) div 100"
  define C where "C = (k + 399) div 400"
  have le: "B \<le> A" unfolding A_def B_def by (rule centuries_le)
  have cs: "cum (Suc k) = 365 * Suc k + (A + (if k mod 4 = 0 then 1 else 0))
               - (B + (if k mod 100 = 0 then 1 else 0)) + (C + (if k mod 400 = 0 then 1 else 0))"
    unfolding cum_def a b c A_def B_def C_def ..
  have ck: "cum k = 365 * k + A - B + C"
    unfolding cum_def A_def B_def C_def ..
  show ?thesis
  proof (cases "k mod 4 = 0")
    case False
    then have h: "k mod 100 \<noteq> 0" by (metis mod_100_4)
    then have "k mod 400 \<noteq> 0" by (metis mod_400_100)
    then show ?thesis using False h le
      unfolding cs ck diy by (simp add: days_in_year_def leap_year_def)
  next
    case four: True
    show ?thesis
    proof (cases "k mod 100 = 0")
      case False
      then have "k mod 400 \<noteq> 0" by (metis mod_400_100)
      then show ?thesis using False four le
        unfolding cs ck diy by (simp add: days_in_year_def leap_year_def)
    next
      case True
      then show ?thesis using four le
        unfolding cs ck diy by (cases "k mod 400 = 0") (simp_all add: days_in_year_def leap_year_def)
    qed
  qed
qed

lemma cum_400: "cum 400 = 146097"
  by (simp add: cum_def)

lemma cum_mono: "k \<le> k' \<Longrightarrow> cum k \<le> cum k'"
proof (induction k')
  case 0
  then show ?case by simp
next
  case (Suc k')
  then show ?case using cum_Suc [of k' 0] by (cases "k = Suc k'") auto
qed

lemma year_in_cycle:
  "cum k \<le> n \<Longrightarrow> n < 146097 \<Longrightarrow>
     fst (year_of_day (400 * e + k) (n - cum k)) < 400 * e + 400"
proof (induction "400 - k" arbitrary: k)
  case 0
  then have "cum 400 \<le> cum k" using cum_mono [of 400 k] by simp
  then show ?case using 0 cum_400 by simp
next
  case (Suc j)
  then have k: "k < 400" by simp
  show ?case
  proof (cases "n - cum k < days_in_year (400 * e + k)")
    case True
    then show ?thesis using k by (simp add: year_of_day.simps [of "400 * e + k"])
  next
    case False
    then have le: "cum (Suc k) \<le> n" using Suc.prems cum_Suc [of k e] by simp
    have eq: "n - cum k - days_in_year (400 * e + k) = n - cum (Suc k)"
      using cum_Suc [of k e] by simp
    have "j = 400 - Suc k" using Suc.hyps(2) by simp
    from Suc.hyps(1) [OF this le Suc.prems(2)]
    show ?thesis using False eq
      by (simp add: year_of_day.simps [of "400 * e + k"])
  qed
qed

lemma year_of_era: "r < 146097 \<Longrightarrow> fst (year_of_day (400 * e) r) < 400 * e + 400"
  using year_in_cycle [of 0 r e] by (simp add: cum_def)

lemma month_of_day_strict:
  "n < n' \<Longrightarrow>
     fst (month_of_day ls m n) < fst (month_of_day ls m n')
     \<or> (fst (month_of_day ls m n) = fst (month_of_day ls m n')
         \<and> snd (month_of_day ls m n) < snd (month_of_day ls m n'))"
proof (induction ls arbitrary: m n n')
  case Nil
  then show ?case by simp
next
  case (Cons l ls)
  have ge: "\<And>k j. j \<le> fst (month_of_day ls j k)"
  proof -
    fix k j show "j \<le> fst (month_of_day ls j k)"
    proof (induction ls arbitrary: j k)
      case Nil
      then show ?case by simp
    next
      case (Cons a as)
      show ?case using Cons [of "j + 1" "k - a"] by auto
    qed
  qed
  show ?case
  proof (cases "n' < l")
    case True
    then show ?thesis using Cons.prems by simp
  next
    case False
    note big = this
    show ?thesis
    proof (cases "n < l")
      case True
      have "m + 1 \<le> fst (month_of_day ls (m + 1) (n' - l))" by (rule ge)
      then show ?thesis using True big by simp
    next
      case False
      then have "n - l < n' - l" using Cons.prems by simp
      from Cons.IH [OF this, of "m + 1"] show ?thesis using False big by simp
    qed
  qed
qed

lemma month_of_day_bounds:
  "n < sum_list ls \<Longrightarrow>
     fst (month_of_day ls m n) < m + length ls
     \<and> (\<exists>l \<in> set ls. snd (month_of_day ls m n) < l)"
proof (induction ls arbitrary: m n)
  case Nil
  then show ?case by simp
next
  case (Cons l ls)
  show ?case
  proof (cases "n < l")
    case True
    then show ?thesis by simp
  next
    case False
    then have "n - l < sum_list ls" using Cons.prems by simp
    from Cons.IH [OF this, of "m + 1"] show ?thesis using False by auto
  qed
qed

lemma month_of_day_ge: "m \<le> fst (month_of_day ls m n)"
proof (induction ls arbitrary: m n)
  case Nil
  then show ?case by simp
next
  case (Cons a as)
  show ?case using Cons [of "m + 1" "n - a"] by auto
qed

lemma sum_month_lengths: "sum_list (month_lengths y) = days_in_year y"
  by (simp add: month_lengths_def days_in_year_def)

lemma month_in_year:
  assumes "r < days_in_year y"
  shows "1 \<le> fst (month_of_day (month_lengths y) 1 r)
       \<and> fst (month_of_day (month_lengths y) 1 r) \<le> 12
       \<and> snd (month_of_day (month_lengths y) 1 r) < 31"
proof -
  have "r < sum_list (month_lengths y)" using assms by (simp add: sum_month_lengths)
  from month_of_day_bounds [OF this, of 1]
  have a: "fst (month_of_day (month_lengths y) 1 r) < 1 + length (month_lengths y)"
    and b: "\<exists>l \<in> set (month_lengths y). snd (month_of_day (month_lengths y) 1 r) < l"
    by auto
  have "\<forall>l \<in> set (month_lengths y). l \<le> 31" by (simp add: month_lengths_def)
  then have "snd (month_of_day (month_lengths y) 1 r) < 31" using b by fastforce
  moreover have "fst (month_of_day (month_lengths y) 1 r) \<le> 12"
    using a by (simp add: month_lengths_def)
  ultimately show ?thesis using month_of_day_ge [of 1 "month_lengths y" r] by simp
qed

text \<open>The order of the formatted dates.\<close>

lemma digit_less: "i < j \<Longrightarrow> j < 10 \<Longrightarrow> digit i < digit j"
proof -
  have "\<forall>j \<in> {0..<10}. \<forall>i \<in> {0..<j}. digit i < digit j"
    by code_simp
  then show "i < j \<Longrightarrow> j < 10 \<Longrightarrow> digit i < digit j" by simp
qed

lemma digit_mod: "digit (n mod 10) = digit n"
  by (simp add: digit_def)

lemma digit_mono: "a mod 10 < b mod 10 \<Longrightarrow> digit a < digit b"
  using digit_less [of "a mod 10" "b mod 10"] by (simp add: digit_mod)

lemma digit_eq: "a mod 10 = b mod 10 \<Longrightarrow> digit a = digit b"
  by (simp add: digit_def)

lemma pad2_less:
  assumes "a < b" and "b < 100"
  shows "[digit (a div 10), digit a] @ r < [digit (b div 10), digit b] @ s"
proof (cases "a div 10 < b div 10")
  case True
  moreover have "b div 10 < 10" using assms(2) by simp
  ultimately have "digit (a div 10) < digit (b div 10)" by (simp add: digit_less)
  then show ?thesis by simp
next
  case False
  then have eq: "a div 10 = b div 10" using assms(1) by (simp add: div_le_mono le_antisym)
  have "a = 10 * (a div 10) + a mod 10" "b = 10 * (b div 10) + b mod 10" by simp_all
  then have "a mod 10 < b mod 10" using assms(1) eq by linarith
  then have "digit a < digit b" by (rule digit_mono)
  then show ?thesis using eq by simp
qed

lemma div_1000: "a div 1000 = a div 100 div (10::nat)"
  using div_mult2_eq [of a 100 10] by simp

lemma mod_100_div_10: "a mod 100 div 10 = a div 10 mod (10::nat)"
  using mod_mult2_eq [of a 10 10] by simp

lemma mod_100_mod_10: "a mod 100 mod 10 = a mod (10::nat)"
  using mod_mod_cancel [of 10 100 a] by simp

lemma pad4_less:
  assumes "a < b" and "b < 10000"
  shows "[digit (a div 1000), digit (a div 100), digit (a div 10), digit a] @ r
       < [digit (b div 1000), digit (b div 100), digit (b div 10), digit b] @ s"
proof (cases "a div 100 < b div 100")
  case True
  moreover have "b div 100 < 100" using assms(2) by simp
  ultimately have "[digit (a div 100 div 10), digit (a div 100)]
        @ ([digit (a div 10), digit a] @ r)
      < [digit (b div 100 div 10), digit (b div 100)] @ ([digit (b div 10), digit b] @ s)"
    by (rule pad2_less)
  then show ?thesis by (simp add: div_1000)
next
  case False
  have "a div 100 \<le> b div 100" using assms(1) by (simp add: div_le_mono)
  then have eq: "a div 100 = b div 100" using False by simp
  have "a = 100 * (a div 100) + a mod 100" "b = 100 * (b div 100) + b mod 100" by simp_all
  then have lt: "a mod 100 < b mod 100" using assms(1) eq by linarith
  have "[digit (a mod 100 div 10), digit (a mod 100)] @ r
      < [digit (b mod 100 div 10), digit (b mod 100)] @ s"
    using lt by (rule pad2_less) simp
  moreover have "digit (a mod 100 div 10) = digit (a div 10)"
    "digit (b mod 100 div 10) = digit (b div 10)"
    by (rule digit_eq, simp add: mod_100_div_10)+
  moreover have "digit (a mod 100) = digit a" "digit (b mod 100) = digit b"
    by (rule digit_eq, simp add: mod_100_mod_10)+
  ultimately have "[digit (a div 10), digit a] @ r < [digit (b div 10), digit b] @ s"
    by (simp only:)
  then show ?thesis using eq by (simp add: div_1000)
qed

lemma format_Ymd_less:
  assumes "y < y' \<or> (y = y' \<and> (m < m' \<or> (m = m' \<and> d < d')))"
    and "y' < 10000" and "m' < 100" and "d' < 100"
  shows "format_Ymd (y, m, d) < format_Ymd (y', m', d')"
proof -
  consider (year) "y < y'" | (month) "y = y'" "m < m'" | (day) "y = y'" "m = m'" "d < d'"
    using assms(1) by blast
  then show ?thesis
  proof cases
    case year
    from pad4_less [OF year assms(2),
        of "''-'' @ [digit (m div 10), digit m] @ ''-'' @ [digit (d div 10), digit d]"
           "''-'' @ [digit (m' div 10), digit m'] @ ''-'' @ [digit (d' div 10), digit d']"]
    show ?thesis by (simp add: format_Ymd_def)
  next
    case month
    from pad2_less [OF month(2) assms(3),
        of "''-'' @ [digit (d div 10), digit d]" "''-'' @ [digit (d' div 10), digit d']"]
    show ?thesis using month(1) by (simp add: format_Ymd_def)
  next
    case day
    from pad2_less [OF day(3) assms(4), of "[]" "[]"] show ?thesis
      using day(1,2) by (simp add: format_Ymd_def)
  qed
qed

lemma civil_of_day_strict:
  assumes "n < n'" and "n' < 3652425"
  shows "format_Ymd (civil_of_day n) < format_Ymd (civil_of_day n')"
proof -
  define e r e' r' where "e = n div 146097" and "r = n mod 146097"
    and "e' = n' div 146097" and "r' = n' mod 146097"
  obtain y doy where yd: "year_of_day (400 * e) r = (y, doy)" by (cases "year_of_day (400 * e) r")
  obtain y' doy' where yd': "year_of_day (400 * e') r' = (y', doy')"
    by (cases "year_of_day (400 * e') r'")
  obtain m d where md: "month_of_day (month_lengths y) 1 doy = (m, d)"
    by (cases "month_of_day (month_lengths y) 1 doy")
  obtain m' d' where md': "month_of_day (month_lengths y') 1 doy' = (m', d')"
    by (cases "month_of_day (month_lengths y') 1 doy'")
  have c: "civil_of_day n = (y, m, d + 1)" "civil_of_day n' = (y', m', d' + 1)"
    using yd yd' md md' by (simp_all add: civil_of_day_def e_def r_def e'_def r'_def)
  have r: "r < 146097" "r' < 146097" by (simp_all add: r_def r'_def)
  have e': "e' < 25" using assms(2) by (simp add: e'_def div_less_iff_less_mult)
  have ee: "e \<le> e'" using assms(1) by (simp add: e_def e'_def div_le_mono)
  have yub: "y < 400 * e + 400" "y' < 400 * e' + 400"
    using year_of_era [OF r(1), of e] year_of_era [OF r(2), of e'] yd yd' by simp_all
  have ylb: "400 * e' \<le> y'" using year_of_day_ge [of "400 * e'" r'] yd' by simp
  have y'max: "y' < 10000" using yub(2) e' by simp
  have doy: "doy < days_in_year y" "doy' < days_in_year y'"
    using year_of_day_rest [of "400 * e" r] year_of_day_rest [of "400 * e'" r'] yd yd'
    by simp_all
  have mb: "m' \<le> 12" "d' < 31"
    using month_in_year [OF doy(2)] md' by simp_all
  have lex: "y < y' \<or> (y = y' \<and> (m < m' \<or> (m = m' \<and> d + 1 < d' + 1)))"
  proof (cases "e < e'")
    case True
    then have "400 * e + 400 \<le> 400 * e'" by simp
    then show ?thesis using yub(1) ylb by simp
  next
    case False
    then have same: "e = e'" using ee by simp
    have "n = e * 146097 + r" "n' = e' * 146097 + r'"
      by (simp_all add: e_def r_def e'_def r'_def)
    then have "r < r'" using assms(1) same by simp
    from year_of_day_strict [OF this, of "400 * e"]
    have "y < y' \<or> (y = y' \<and> doy < doy')" using yd yd' same by simp
    then show ?thesis
    proof
      assume "y < y'" then show ?thesis by simp
    next
      assume a: "y = y' \<and> doy < doy'"
      then have "doy < doy'" by simp
      from month_of_day_strict [OF this, of "month_lengths y" 1]
      show ?thesis using md md' a by auto
    qed
  qed
  show ?thesis
    unfolding c using lex y'max mb by (intro format_Ymd_less) simp_all
qed

lemma civil_of_day_inj:
  assumes "n < 3652425" and "n' < 3652425"
  shows "format_Ymd (civil_of_day n) = format_Ymd (civil_of_day n') \<longleftrightarrow> n = n'"
  using civil_of_day_strict [of n n'] civil_of_day_strict [of n' n] assms
  by (metis less_irrefl nat_neq_iff)

lemma year_of_civil:
  "fst (civil_of_day n) \<le> 9999 \<longleftrightarrow> n < 3652425"
proof
  assume "n < 3652425"
  then have "n div 146097 < 25" by (simp add: div_less_iff_less_mult)
  moreover have "fst (year_of_day (400 * (n div 146097)) (n mod 146097)) < 400 * (n div 146097) + 400"
    by (rule year_of_era) simp
  ultimately show "fst (civil_of_day n) \<le> 9999"
    by (auto simp: civil_of_day_def split: prod.splits)
next
  assume a: "fst (civil_of_day n) \<le> 9999"
  have "400 * (n div 146097) \<le> fst (year_of_day (400 * (n div 146097)) (n mod 146097))"
    by (rule year_of_day_ge)
  then have "400 * (n div 146097) \<le> 9999"
    using a by (auto simp: civil_of_day_def split: prod.splits)
  then have "n div 146097 < 25" by simp
  then show "n < 3652425" by (simp add: div_less_iff_less_mult)
qed

section \<open>Facts about the days of instants\<close>

lemma dateToString_Ymd_Some:
  "dateToString_Ymd t \<noteq> None \<longleftrightarrow> day_in_range (utc_day t)"
proof -
  have "fst (civil_of_day (nat (utc_day t + 719528))) \<le> 9999
          \<longleftrightarrow> nat (utc_day t + 719528) < 3652425"
    by (rule year_of_civil)
  then show ?thesis
    by (auto simp: dateToString_Ymd_def day_in_range_def not_less)
qed

lemma dateToString_Ymd_defined:
  "(\<exists>k. dateToString_Ymd t = Some k) \<longleftrightarrow> day_in_range (utc_day t)"
  using dateToString_Ymd_Some [of t] by auto

lemma dateToString_Ymd_value:
  assumes "day_in_range (utc_day t)"
  shows "dateToString_Ymd t = Some (format_utc_day (utc_day t))"
proof -
  have "dateToString_Ymd t \<noteq> None" using assms dateToString_Ymd_Some by blast
  then show ?thesis by (simp add: dateToString_Ymd_def split: if_splits)
qed

lemma format_utc_day_strict:
  assumes "day_in_range d" and "day_in_range d'" and "d < d'"
  shows "format_utc_day d < format_utc_day d'"
proof -
  have "nat (d + 719528) < nat (d' + 719528)" "nat (d' + 719528) < 3652425"
    using assms by (simp_all add: day_in_range_def)
  then show ?thesis unfolding format_utc_day_def by (rule civil_of_day_strict)
qed

lemma format_utc_day_inj:
  assumes "day_in_range d" and "day_in_range d'"
  shows "format_utc_day d = format_utc_day d' \<longleftrightarrow> d = d'"
  using format_utc_day_strict [OF assms] format_utc_day_strict [OF assms(2,1)]
  by (metis less_irrefl linorder_neqE_linordered_idom)

lemma those_map_Some:
  "\<forall>x \<in> set xs. f x = Some (g x) \<Longrightarrow> those (map f xs) = Some (map g xs)"
  by (induction xs) simp_all

text \<open>Two lists of pairs, each ordered by its keys without a repeated key, with the same elements.\<close>

lemma keyed_lists_unique:
  assumes "sorted (map fst xs)" and "distinct (map fst xs)"
    and "sorted (map fst ys)" and "distinct (map fst ys)"
    and "set xs = set ys"
  shows "xs = ys"
proof -
  have "set (map fst xs) = set (map fst ys)" using assms(5) by simp
  then have keys: "map fst xs = map fst ys"
    using assms(1-4) by (intro sorted_distinct_set_unique)
  then have len: "length xs = length ys" by (metis length_map)
  show ?thesis
  proof (rule nth_equalityI [OF len])
    fix i
    assume i: "i < length xs"
    then have "xs ! i \<in> set ys" using assms(5) nth_mem by blast
    then obtain j where j: "j < length ys" "ys ! j = xs ! i" by (metis in_set_conv_nth)
    have "map fst ys ! j = fst (xs ! i)" using j by simp
    also have "\<dots> = map fst xs ! i" using i by simp
    also have "\<dots> = map fst ys ! i" using keys by simp
    finally have "j = i"
      using assms(4) j(1) i len by (simp add: nth_eq_iff_index_eq del: nth_map)
    then show "xs ! i = ys ! i" using j(2) by simp
  qed
qed

text \<open>
  On a server on UTC the bound is seven times 24 hours before the query; in New York on
  12 March 2025 at noon, three days after the clocks went forward, it is an hour less.
\<close>

lemma sevenDaysAgo_fixed_offset:
  "offset_at_instant tz now = c \<Longrightarrow> offset_at_local tz (now + c - 7 * msPerDay) = c \<Longrightarrow>
     sevenDaysAgo tz now = now - 7 * msPerDay"
  by (simp add: sevenDaysAgo_def Let_def)

lemma sevenDaysAgo_new_york:
  "sevenDaysAgo new_york_zone 1741795200000 = 1741795200000 - 7 * msPerDay + 3600000"
  by (simp add: sevenDaysAgo_def new_york_zone_def msPerDay_def)

section \<open>Facts about the operations on tasks\<close>

lemma set_remove_by_id: "set (remove_by_id i ts) \<subseteq> set ts"
  by (induction ts) auto

lemma save_cases:
  "d \<in> set (save t ts) \<Longrightarrow> d \<in> set ts \<or> (d = t \<and> (\<exists>e \<in> set ts. task_id e = task_id t))"
  by (induction ts) (auto split: if_splits)

lemma share_tasks_cases:
  "tasks (snd (share f now u i v st)) = tasks st \<or>
   (\<exists>t w. findById i (tasks st) = Some t \<and>
      tasks (snd (share f now u i v st))
        = save (t\<lparr>sharedWith := sharedWith t @ [w], updatedAt := now\<rparr>) (tasks st))"
  by (auto simp: share_def Let_def tasks_io_emit split: option.splits)

lemma update_tasks_cases:
  "tasks (snd (updateTask g now u i b st)) = tasks st \<or>
   (\<exists>t t'. findById i (tasks st) = Some t \<and> owner t' = owner t \<and> task_id t' = task_id t
      \<and> schema_valid t' \<and> tasks (snd (updateTask g now u i b st)) = save t' (tasks st))"
proof (cases "findById i (tasks st)")
  case None
  then show ?thesis by (simp add: updateTask_def)
next
  case (Some t)
  define t' where "t' = t\<lparr>title := (case in_title b of None \<Rightarrow> title t | Some x \<Rightarrow> x),
                       description := (case in_description b of None \<Rightarrow> description t
                                       | Some d \<Rightarrow> Some d),
                       status := (case in_status b of None \<Rightarrow> status t | Some s \<Rightarrow> s),
                       dueDate := (case in_dueDate b of None \<Rightarrow> dueDate t | Some d \<Rightarrow> Some d),
                       updatedAt := now\<rparr>"
  have same: "owner t' = owner t" "task_id t' = task_id t" by (simp_all add: t'_def)
  show ?thesis
  proof (cases "g u t \<and> schema_valid t'")
    case True
    then have "tasks (snd (updateTask g now u i b st)) = save t' (tasks st)"
      using Some by (simp add: updateTask_def Let_def t'_def)
    then show ?thesis using Some same True by blast
  next
    case False
    then have "tasks (snd (updateTask g now u i b st)) = tasks st"
      using Some by (auto simp: updateTask_def Let_def t'_def)
    then show ?thesis by simp
  qed
qed

text \<open>
  Where a task of the state after an operation comes from: a task of the state before
  with the same identifier and owner (and a status that is in the enumeration if it was
  before), or the create operation.
\<close>

lemma step_task_origin:
  assumes "t' \<in> set (tasks (apply_operation op st))"
  shows "(\<exists>t \<in> set (tasks st). task_id t = task_id t' \<and> owner t = owner t'
            \<and> (status_ok t \<longrightarrow> status_ok t'))
         \<or> (created_by op t' \<and> status_ok t')"
proof (cases op)
  case (Create new_id now u b)
  then show ?thesis using assms
    by (auto simp: createTask_def Let_def created_by_def schema_valid_def status_ok_def
        split: if_splits)
next
  case (Update g now u i b)
  from update_tasks_cases [of g now u i b st] show ?thesis
  proof
    assume "tasks (snd (updateTask g now u i b st)) = tasks st"
    then show ?thesis using assms Update by auto
  next
    assume "\<exists>t t'. findById i (tasks st) = Some t \<and> owner t' = owner t \<and> task_id t' = task_id t
      \<and> schema_valid t' \<and> tasks (snd (updateTask g now u i b st)) = save t' (tasks st)"
    then obtain t n where n: "findById i (tasks st) = Some t" "owner n = owner t"
        "task_id n = task_id t" "schema_valid n"
        "tasks (snd (updateTask g now u i b st)) = save n (tasks st)" by blast
    then have "t' \<in> set (tasks st) \<or> t' = n"
      using assms Update save_cases [of t' n "tasks st"] by auto
    then show ?thesis
    proof
      assume "t' \<in> set (tasks st)" then show ?thesis by auto
    next
      assume "t' = n"
      then show ?thesis using n findById_mem [OF n(1)]
        by (auto simp: schema_valid_def status_ok_def)
    qed
  qed
next
  case (Share f now u i v)
  from share_tasks_cases [of f now u i v st] show ?thesis
  proof
    assume "tasks (snd (share f now u i v st)) = tasks st"
    then show ?thesis using assms Share by auto
  next
    assume "\<exists>t w. findById i (tasks st) = Some t \<and>
      tasks (snd (share f now u i v st))
        = save (t\<lparr>sharedWith := sharedWith t @ [w], updatedAt := now\<rparr>) (tasks st)"
    then obtain t w where n: "findById i (tasks st) = Some t"
      "tasks (snd (share f now u i v st))
        = save (t\<lparr>sharedWith := sharedWith t @ [w], updatedAt := now\<rparr>) (tasks st)" by blast
    then have "t' \<in> set (tasks st) \<or> t' = t\<lparr>sharedWith := sharedWith t @ [w], updatedAt := now\<rparr>"
      using assms Share save_cases [of t' _ "tasks st"] by auto
    then show ?thesis
    proof
      assume "t' \<in> set (tasks st)" then show ?thesis by auto
    next
      assume "t' = t\<lparr>sharedWith := sharedWith t @ [w], updatedAt := now\<rparr>"
      then show ?thesis using findById_mem [OF n(1)]
        by (auto simp: status_ok_def)
    qed
  qed
next
  case (Delete g u i)
  then have "set (tasks (apply_operation op st)) \<subseteq> set (tasks st)"
    using set_remove_by_id by (auto simp: deleteTask_def split: option.splits)
  then show ?thesis using assms by auto
qed

section \<open>Claims about sharing\<close>

text \<open>
  C1. Two shares of the task \<open>t1\<close> with \<open>dave\<close> by its owner, the identifier written
  in upper-case digits in both requests. The stored identifier is the lower-case
  rendering, which the string of the request does not equal, so the second call takes
  the user as absent: it answers 200, stores the identifier a second time and emits a
  second event. The user is then twice in the shared-with list.
\<close>

theorem share_twice_upper_case_duplicates:
  "castObjectId dave_id_upper = Some dave_id
   \<and> map sharedWith (tasks (snd (share f_ok 2000 alice ''t1'' dave_id_upper st0)))
       = [[dave_id]]
   \<and> status_code (fst (share f_ok 3000 alice ''t1'' dave_id_upper
        (snd (share f_ok 2000 alice ''t1'' dave_id_upper st0)))) = 200
   \<and> map sharedWith (tasks (snd (share f_ok 3000 alice ''t1'' dave_id_upper
        (snd (share f_ok 2000 alice ''t1'' dave_id_upper st0)))))
       = [[dave_id, dave_id]]
   \<and> length (emitted (snd (share f_ok 3000 alice ''t1'' dave_id_upper
        (snd (share f_ok 2000 alice ''t1'' dave_id_upper st0))))) = 2"
proof -
  let ?t = "t1\<lparr>sharedWith := [dave_id], updatedAt := 2000\<rparr>"
  let ?st = "st0\<lparr>tasks := [?t]\<rparr>"
  let ?ev = "(''notify:'' @ dave_id_upper, share_message t1)"
  have first: "share f_ok 2000 alice ''t1'' dave_id_upper st0
      = (Json ?t, io_emit (''notify:'' @ dave_id_upper) (share_message ?t) ?st)"
    using share_added [of f_ok "''t1''" st0 t1 alice dave_id_upper dave_id 2000]
      cast_dave_upper
    by (simp add: f_ok_def findById_def st0_def t1_def alice_def Let_def)
  let ?st1 = "io_emit (''notify:'' @ dave_id_upper) (share_message ?t) ?st"
  let ?t2 = "?t\<lparr>sharedWith := [dave_id, dave_id], updatedAt := 3000\<rparr>"
  have second: "share f_ok 3000 alice ''t1'' dave_id_upper ?st1
      = (Json ?t2,
         io_emit (''notify:'' @ dave_id_upper) (share_message ?t2) (?st1\<lparr>tasks := [?t2]\<rparr>))"
    using share_added [of f_ok "''t1''" ?st1 ?t alice dave_id_upper dave_id 3000]
      cast_dave_upper dave_upper_differs
    by (simp add: f_ok_def findById_def io_emit_def t1_def alice_def Let_def)
  show ?thesis
    unfolding first snd_conv fst_conv second
    using cast_dave_upper by (simp add: io_emit_def st0_def)
qed

text \<open>
  C2. When the task resolves and the requester is not its owner, the share operation
  answers 403 Forbidden and changes nothing: the whole state, and so the task's
  shared-with list, is as before.
\<close>

theorem share_not_owner_forbidden:
  assumes "\<not> task_find_fails f"
    and "findById i (tasks st) = Some t"
    and "owner t \<noteq> user_id req_user"
  shows "share f now req_user i u st = (Status 403 ''Forbidden'', st)"
  using assms by (simp add: share_def)

theorem share_not_owner_forbidden_witness:
  "share f_ok 2000 bob ''t1'' ''b2'' st0 = (Status 403 ''Forbidden'', st0)
   \<and> status_code (fst (share f_ok 2000 bob ''t1'' ''b2'' st0)) = 403
   \<and> map sharedWith (tasks (snd (share f_ok 2000 bob ''t1'' ''b2'' st0))) = [[]]"
proof -
  have a: "\<not> task_find_fails f_ok" by (simp add: f_ok_def)
  have b: "findById ''t1'' (tasks st0) = Some t1"
    by (simp add: findById_def st0_def t1_def)
  have c: "owner t1 \<noteq> user_id bob" by (simp add: t1_def bob_def)
  show ?thesis
    using share_not_owner_forbidden [OF a b c, of 2000 "''b2''"]
    by (simp add: st0_def t1_def)
qed

text \<open>
  C3. A task identifier that does not resolve: \<^verbatim>\<open>findById\<close> gives null, the owner
  check dereferences it, and the handler answers through its \<^verbatim>\<open>catch\<close> with the
  generic 500 \<open>Error sharing task\<close>, the answer it also gives when the store fails.
  No not-found client error is produced. Evaluated for a request by \<open>alice\<close> for
  \<open>missing_id\<close>, which the store does not hold.
\<close>

theorem share_missing_task_is_500:
  "findById missing_id (tasks st0) = None
   \<and> share f_ok 2000 alice missing_id ''b2'' st0 = (Status 500 ''Error sharing task'', st0)
   \<and> status_code (fst (share f_ok 2000 alice missing_id ''b2'' st0)) = 500"
  by (simp add: share_def findById_def st0_def t1_def f_ok_def missing_id_def)


text \<open>
  C4. A share of \<open>t1\<close> with \<open>dave\<close>, who is already in its shared-with list, the
  identifier written in upper-case digits. The string of the request equals no stored
  rendering, so the handler takes the user as absent: it stores the identifier once
  more and emits an event, under a name that carries the spelling of the request.
\<close>

theorem share_present_user_notified_again:
  "dave_id \<in> set (sharedWith (t1\<lparr>sharedWith := [dave_id]\<rparr>))
   \<and> findById ''t1'' (tasks st0_shared) = Some (t1\<lparr>sharedWith := [dave_id]\<rparr>)
   \<and> castObjectId dave_id_upper = Some dave_id
   \<and> emitted (snd (share f_ok 2000 alice ''t1'' dave_id_upper st0_shared))
       = [(''notify:'' @ dave_id_upper, share_message t1)]
   \<and> map sharedWith (tasks (snd (share f_ok 2000 alice ''t1'' dave_id_upper st0_shared)))
       = [[dave_id, dave_id]]"
proof -
  let ?t = "t1\<lparr>sharedWith := [dave_id]\<rparr>"
  let ?t2 = "?t\<lparr>sharedWith := [dave_id, dave_id], updatedAt := 2000\<rparr>"
  have res: "findById ''t1'' (tasks st0_shared) = Some ?t"
    by (simp add: findById_def st0_shared_def st0_def t1_def)
  have run: "share f_ok 2000 alice ''t1'' dave_id_upper st0_shared
      = (Json ?t2, io_emit (''notify:'' @ dave_id_upper) (share_message ?t2)
                     (st0_shared\<lparr>tasks := [?t2]\<rparr>))"
    using share_added [of f_ok "''t1''" st0_shared ?t alice dave_id_upper dave_id 2000]
      cast_dave_upper dave_upper_differs res
    by (simp add: f_ok_def st0_shared_def st0_def t1_def alice_def Let_def)
  show ?thesis
    unfolding run snd_conv
    using cast_dave_upper res
    by (simp add: io_emit_def st0_shared_def st0_def share_message_def)
qed

text \<open>
  C5, as the claim states it, fails for a client that has registered its callback twice
  for the same user: \<^verbatim>\<open>socket.on\<close> keeps both listeners and each is called, so the
  client gets two copies of one event.
\<close>

theorem share_event_two_copies:
  "sockets st0_clients ! 1
     = listenForNotifications dave_id (listenForNotifications dave_id connection)
   \<and> received (sockets (snd (share f_ok 2000 alice ''t1'' dave_id st0_clients)) ! 1)
     = [(''notify:'' @ dave_id, share_message t1), (''notify:'' @ dave_id, share_message t1)]"
proof -
  let ?t = "t1\<lparr>sharedWith := [dave_id], updatedAt := 2000\<rparr>"
  have run: "share f_ok 2000 alice ''t1'' dave_id st0_clients
      = (Json ?t, io_emit (''notify:'' @ dave_id) (share_message ?t)
                    (st0_clients\<lparr>tasks := [?t]\<rparr>))"
    using share_added [of f_ok "''t1''" st0_clients t1 alice dave_id dave_id 2000] cast_dave
    by (simp add: f_ok_def findById_def st0_clients_def st0_def t1_def alice_def Let_def)
  show ?thesis
    unfolding run snd_conv
    by (simp add: io_emit_def st0_clients_def deliver_def listenForNotifications_def
        connection_def share_message_def)
qed

text \<open>
  C5, amended. On a share that adds the target and emits, for a request that gives the
  target's identifier in the rendering of the store: no socket connects or disconnects
  and no listener changes; a connected client that has subscribed with
  \<open>listenForNotifications\<close> for the users \<open>vs\<close> gets one copy of the event for each of
  its subscriptions for the target, so exactly one if it has subscribed for the target
  once, and none if it has subscribed for other users only or not at all; a listener
  registered after the emit gets nothing of it.
\<close>

theorem share_event_delivery:
  assumes "\<not> task_find_fails f" and "findById i (tasks st) = Some t"
    and "owner t = user_id req_user" and "u \<notin> set (sharedWith t)"
    and "castObjectId u = Some u"
    and "\<not> task_save_fails f" and "\<not> emit_fails f"
    and "share f now req_user i u st = (r, st')"
    and "k < length (sockets st)"
    and "sockets st ! k = foldl (\<lambda>c v. listenForNotifications v c) c0 vs"
  shows "length (sockets st') = length (sockets st)
     \<and> listeners (sockets st' ! k) = listeners (sockets st ! k)
     \<and> received (sockets st' ! k) = received c0 @
          replicate (count_list (listeners c0) (''notify:'' @ u) + count_list vs u)
            (''notify:'' @ u, share_message t)
     \<and> (\<forall>v. received (listenForNotifications v (sockets st' ! k)) = received (sockets st' ! k))"
proof -
  define t' where "t' = t\<lparr>sharedWith := sharedWith t @ [u], updatedAt := now\<rparr>"
  define c where "c = sockets st ! k"
  have msg: "share_message t' = share_message t" by (simp add: t'_def share_message_def)
  have "st' = io_emit (''notify:'' @ u) (share_message t') (st\<lparr>tasks := save t' (tasks st)\<rparr>)"
    using assms(7,8) share_added [OF assms(1-6), of now] by (auto simp: Let_def t'_def)
  then have socks: "sockets st' = map (deliver (''notify:'' @ u) (share_message t)) (sockets st)"
    by (simp add: io_emit_def msg)
  then have c': "sockets st' ! k = deliver (''notify:'' @ u) (share_message t) c"
    using assms(9) by (simp add: c_def)
  have len: "length (sockets st') = length (sockets st)" using socks by simp
  have lis: "listeners (sockets st' ! k) = listeners c" using c' by (simp add: listeners_deliver)
  have lc: "listeners c = listeners c0 @ map (\<lambda>v. ''notify:'' @ v) vs"
    and rc: "received c = received c0"
    unfolding c_def assms(10) by (rule listeners_subscribed, rule received_subscribed)
  have "count_list (listeners c) (''notify:'' @ u)
          = count_list (listeners c0) (''notify:'' @ u) + count_list vs u"
    unfolding lc by (simp only: count_list_append count_prefixed)
  then have rec: "received (sockets st' ! k) = received c0 @
          replicate (count_list (listeners c0) (''notify:'' @ u) + count_list vs u)
            (''notify:'' @ u, share_message t)"
    unfolding c' received_deliver rc by (simp only:)
  have later: "\<forall>v. received (listenForNotifications v (sockets st' ! k)) = received (sockets st' ! k)"
    by (simp add: listenForNotifications_def)
  show ?thesis using len lis rec later unfolding c_def by blast
qed

text \<open>
  In \<open>st0_clients\<close>, after \<open>t1\<close> is shared with \<open>dave\<close>: the client that subscribed
  for him once has one copy, the client that subscribed for \<open>alice\<close> and the client
  without a subscription have none.
\<close>

theorem share_event_delivery_witness:
  "received (sockets (snd (share f_ok 2000 alice ''t1'' dave_id st0_clients)) ! 0)
     = [(''notify:'' @ dave_id, share_message t1)]
   \<and> received (sockets (snd (share f_ok 2000 alice ''t1'' dave_id st0_clients)) ! 2) = []
   \<and> received (sockets (snd (share f_ok 2000 alice ''t1'' dave_id st0_clients)) ! 3) = []
   \<and> received (listenForNotifications dave_id
        (sockets (snd (share f_ok 2000 alice ''t1'' dave_id st0_clients)) ! 3)) = []"
proof -
  let ?st' = "snd (share f_ok 2000 alice ''t1'' dave_id st0_clients)"
  have a: "\<not> task_find_fails f_ok" and b: "\<not> task_save_fails f_ok"
    and e: "\<not> emit_fails f_ok"
    by (simp_all add: f_ok_def)
  have c: "findById ''t1'' (tasks st0_clients) = Some t1"
    by (simp add: findById_def st0_clients_def st0_def t1_def)
  have d: "owner t1 = user_id alice" by (simp add: t1_def alice_def)
  have n: "dave_id \<notin> set (sharedWith t1)" by (simp add: t1_def)
  have s: "share f_ok 2000 alice ''t1'' dave_id st0_clients
             = (fst (share f_ok 2000 alice ''t1'' dave_id st0_clients), ?st')" by simp
  have k0: "(0::nat) < length (sockets st0_clients)"
    and k2: "(2::nat) < length (sockets st0_clients)"
    and k3: "(3::nat) < length (sockets st0_clients)"
    by (simp_all add: st0_clients_def)
  have s0: "sockets st0_clients ! 0
      = foldl (\<lambda>c v. listenForNotifications v c) connection [dave_id]"
    and s2: "sockets st0_clients ! 2
      = foldl (\<lambda>c v. listenForNotifications v c) connection [''a1'']"
    and s3: "sockets st0_clients ! 3
      = foldl (\<lambda>c v. listenForNotifications v c) connection []"
    by (simp_all add: st0_clients_def)
  have other: "''a1'' \<noteq> dave_id" by (simp add: dave_id_def)
  note dl = share_event_delivery [OF a c d n cast_dave b e s]
  have r0: "received (sockets ?st' ! 0) = [(''notify:'' @ dave_id, share_message t1)]"
    using dl [OF k0 s0] by (simp add: connection_def)
  have r2: "received (sockets ?st' ! 2) = []"
    using dl [OF k2 s2] other by (simp add: connection_def)
  have r3: "received (sockets ?st' ! 3) = []"
    and l3: "received (listenForNotifications dave_id (sockets ?st' ! 3)) = []"
    using dl [OF k3 s3] by (simp_all add: connection_def)
  show ?thesis using r0 r2 r3 l3 by blast
qed

text \<open>
  C6. When the write of the addition succeeds and the emit then throws, the request is
  answered with the generic 500 and the stored task keeps the new entry: the target's
  identifier is in the shared-with list of the task in the resulting state, however
  the request spelled it.
\<close>

theorem share_emit_failure_keeps_write:
  assumes "\<not> task_find_fails f" and "findById i (tasks st) = Some t"
    and "owner t = user_id req_user" and "u \<notin> set (sharedWith t)"
    and "castObjectId u = Some target"
    and "\<not> task_save_fails f" and "emit_fails f"
    and "share f now req_user i u st = (r, st')"
  shows "r = Status 500 ''Error sharing task'' \<and>
         (\<exists>t'. findById i (tasks st') = Some t' \<and> target \<in> set (sharedWith t')
            \<and> sharedWith t' = sharedWith t @ [target])"
proof -
  define t' where "t' = t\<lparr>sharedWith := sharedWith t @ [target], updatedAt := now\<rparr>"
  have "task_id t' = i" using findById_task_id [OF assms(2)] by (simp add: t'_def)
  then have "findById i (save t' (tasks st)) = Some t'"
    using findById_save [OF assms(2)] by simp
  moreover have "r = Status 500 ''Error sharing task''" and "tasks st' = save t' (tasks st)"
    using assms(7,8) share_added [OF assms(1-6), of now] by (auto simp: Let_def t'_def)
  ultimately show ?thesis by (auto simp: t'_def)
qed

theorem share_emit_failure_keeps_write_witness:
  "fst (share f_emit_down 2000 alice ''t1'' dave_id st0) = Status 500 ''Error sharing task''
   \<and> (\<exists>t'. findById ''t1'' (tasks (snd (share f_emit_down 2000 alice ''t1'' dave_id st0)))
              = Some t'
          \<and> dave_id \<in> set (sharedWith t') \<and> sharedWith t' = [dave_id])"
proof -
  have a: "\<not> task_find_fails f_emit_down" and b: "\<not> task_save_fails f_emit_down"
    and e: "emit_fails f_emit_down"
    by (simp_all add: f_emit_down_def)
  have c: "findById ''t1'' (tasks st0) = Some t1"
    by (simp add: findById_def st0_def t1_def)
  have d: "owner t1 = user_id alice" by (simp add: t1_def alice_def)
  have n: "dave_id \<notin> set (sharedWith t1)" by (simp add: t1_def)
  have s: "share f_emit_down 2000 alice ''t1'' dave_id st0
             = (fst (share f_emit_down 2000 alice ''t1'' dave_id st0),
                snd (share f_emit_down 2000 alice ''t1'' dave_id st0))" by simp
  have l: "sharedWith t1 @ [dave_id] = [dave_id]" by (simp add: t1_def)
  show ?thesis
    using share_emit_failure_keeps_write [OF a c d n cast_dave b e s] unfolding l by blast
qed

section \<open>Claims about analytics\<close>

text \<open>
  C7. When the aggregation does not throw, the overview answers with one pair per
  status, no status twice: a status is paired with \<open>n\<close> exactly when \<open>n\<close> is the number
  of tasks that the requester owns and that have this status, and \<open>n\<close> is not zero. So
  only the requester's own tasks are counted and a status without tasks is left out.
\<close>

theorem overview_counts:
  assumes "\<not> aggregate_fails f"
  shows "\<exists>data. overview f req_user st = Json data
      \<and> distinct (map fst data)
      \<and> (\<forall>s n. (s, n) \<in> set data \<longleftrightarrow>
            n = length (filter (\<lambda>t. owner t = user_id req_user \<and> status t = s) (tasks st))
            \<and> 0 < n)"
proof -
  let ?mine = "filter (\<lambda>t. owner t = user_id req_user) (tasks st)"
  have "filter (\<lambda>t. status t = s) ?mine
          = filter (\<lambda>t. owner t = user_id req_user \<and> status t = s) (tasks st)" for s
    by (simp add: conj_commute)
  then have "\<forall>s n. (s, n) \<in> set (group_count status ?mine) \<longleftrightarrow>
            n = length (filter (\<lambda>t. owner t = user_id req_user \<and> status t = s) (tasks st))
            \<and> 0 < n"
    by (simp add: group_count_iff)
  moreover have "overview f req_user st = Json (group_count status ?mine)"
    using assms by (simp add: overview_def)
  ultimately show ?thesis using distinct_group_count by blast
qed

text \<open>
  The example of the spec: with two pending tasks and a completed one, \<open>alice\<close> gets
  \<open>Pending: 2\<close> and \<open>Completed: 1\<close>, and nothing for \<open>In Progress\<close>, which only a task of
  \<open>bob\<close> has.
\<close>

theorem overview_counts_witness:
  "overview f_ok alice st_an = Json [(''Pending'', 2), (''Completed'', 1)]
   \<and> (\<forall>s n. (s, n) \<in> set [(''Pending'', 2), (''Completed'', 1 :: nat)] \<longleftrightarrow>
         n = length (filter (\<lambda>t. owner t = user_id alice \<and> status t = s) (tasks st_an))
         \<and> 0 < n)"
proof -
  have a: "\<not> aggregate_fails f_ok" by (simp add: f_ok_def)
  have e: "overview f_ok alice st_an = Json [(''Pending'', 2), (''Completed'', 1)]"
    by code_simp
  from overview_counts [OF a, of alice st_an] obtain data where
    d: "overview f_ok alice st_an = Json data"
      "\<forall>s n. (s, n) \<in> set data \<longleftrightarrow>
         n = length (filter (\<lambda>t. owner t = user_id alice \<and> status t = s) (tasks st_an))
         \<and> 0 < n"
    by blast
  from d(1) e have "data = [(''Pending'', 2), (''Completed'', 1)]" by simp
  with d(2) e show ?thesis by blast
qed

text \<open>
  C8, as the claim states it, fails for a task that bears a creation time later than
  the query: the pipeline tests the lower bound only, so the task is counted although
  it does not lie in the seven days that end at the time of the query.
\<close>

theorem trends_counts_future_task:
  "tasks st_future = [mk_task ''k8'' ''b2'' ''Pending'' 1750400000000]
   \<and> (1750000000000 :: int) < createdAt (mk_task ''k8'' ''b2'' ''Pending'' 1750400000000)
   \<and> trends utc_zone f_ok 1750000000000 bob st_future = Json [(''2025-06-20'', 1)]"
proof -
  have k8: "dateToString_Ymd 1750400000000 = Some ''2025-06-20''"
    by (simp add: dateToString_Ymd_def utc_day_def format_utc_day_def msPerDay_def
        civil_of_day_def format_Ymd_def digit_def month_lengths_def year_of_day.simps
        days_in_year_def leap_year_def)
  show ?thesis
    by (simp add: trends_def st_future_def mk_task_def f_ok_def bob_def sevenDaysAgo_def
        utc_zone_def msPerDay_def k8 group_count_def)
qed

text \<open>
  C8, amended. When the aggregation does not throw, in the store or on a date whose
  year is outside 0 to 9999, the trends query answers with one group for each UTC
  calendar day on which the requester owns a task created at or after the instant
  \<open>sevenDaysAgo\<close> (the local time of the query moved back by seven calendar days); a
  task created after the query is included. The groups are in ascending order of their
  days; each bears the rendering of its day as year, month and day, and the number of
  those tasks of the requester that were created on that day.
\<close>

theorem trends_window:
  assumes "\<not> aggregate_fails f"
    and "\<forall>t \<in> set (tasks st).
           owner t = user_id req_user \<and> sevenDaysAgo tz now \<le> createdAt t
             \<longrightarrow> dateToString_Ymd (createdAt t) \<noteq> None"
  shows "\<exists>days. sorted days \<and> distinct days
      \<and> set days = {utc_day (createdAt t) | t.
                      t \<in> set (tasks st) \<and> owner t = user_id req_user
                      \<and> sevenDaysAgo tz now \<le> createdAt t}
      \<and> trends tz f now req_user st =
          Json (map (\<lambda>d. (format_utc_day d,
                          length (filter (\<lambda>t. owner t = user_id req_user
                                           \<and> sevenDaysAgo tz now \<le> createdAt t
                                           \<and> utc_day (createdAt t) = d) (tasks st))))
                  days)"
proof -
  define P where "P = (\<lambda>t :: task. owner t = user_id req_user \<and> sevenDaysAgo tz now \<le> createdAt t)"
  define M where "M = filter P (tasks st)"
  define day where "day = (\<lambda>t :: task. utc_day (createdAt t))"
  define K where "K = (\<lambda>t :: task. format_utc_day (day t))"
  define cnt where "cnt = (\<lambda>d. length (filter (\<lambda>t. day t = d) M))"
  define G where "G = group_count (\<lambda>k. k) (map K M)"
  define D where "D = sorted_list_of_set (day ` set M)"
  define data' where "data' = map (\<lambda>d. (format_utc_day d, cnt d)) D"
  have range: "\<forall>t \<in> set M. day_in_range (day t)"
    using assms(2) by (auto simp: M_def P_def day_def dateToString_Ymd_defined)
  then have "\<forall>t \<in> set M. dateToString_Ymd (createdAt t) = Some (K t)"
    by (simp add: K_def day_def dateToString_Ymd_value)
  then have "those (map (\<lambda>t. dateToString_Ymd (createdAt t)) M) = Some (map K M)"
    by (rule those_map_Some)
  then have run: "trends tz f now req_user st = Json (sort_key fst G)"
    using assms(1) by (simp add: trends_def M_def P_def G_def)
  have D: "sorted D" "distinct D" "set D = day ` set M"
    by (simp_all add: D_def)
  have Drange: "\<forall>d \<in> set D. day_in_range d" using D(3) range by auto
  have G: "(k, n) \<in> set G \<longleftrightarrow> n = length (filter (\<lambda>t. K t = k) M) \<and> 0 < n" for k n
  proof -
    have "filter (\<lambda>x. x = k) (map K M) = map K (filter (\<lambda>t. K t = k) M)"
      by (simp add: filter_map comp_def)
    then have "length (filter (\<lambda>x. x = k) (map K M)) = length (filter (\<lambda>t. K t = k) M)"
      by simp
    then show ?thesis unfolding G_def group_count_iff by simp
  qed
  have same_day: "filter (\<lambda>t. K t = format_utc_day d) M = filter (\<lambda>t. day t = d) M"
    if "day_in_range d" for d
  proof (rule filter_cong [OF refl])
    fix t assume "t \<in> set M"
    then have "day_in_range (day t)" using range by simp
    then show "(K t = format_utc_day d) = (day t = d)"
      unfolding K_def using that by (rule format_utc_day_inj)
  qed
  have sets: "set data' = set G"
  proof (rule set_eqI)
    fix x :: "string \<times> nat"
    obtain k n where x: "x = (k, n)" by (cases x)
    show "x \<in> set data' \<longleftrightarrow> x \<in> set G"
    proof
      assume "x \<in> set data'"
      then obtain d where d: "d \<in> set D" "k = format_utc_day d" "n = cnt d"
        using x by (auto simp: data'_def)
      then obtain t0 where t0: "t0 \<in> set M" "day t0 = d" using D(3) by auto
      have "filter (\<lambda>t. K t = k) M = filter (\<lambda>t. day t = d) M"
        unfolding d(2) using Drange d(1) by (intro same_day) simp
      moreover have "t0 \<in> set (filter (\<lambda>t. day t = d) M)" using t0 by simp
      then have "0 < cnt d" unfolding cnt_def by (metis length_pos_if_in_set)
      ultimately show "x \<in> set G" unfolding x G using d(3) by (simp add: cnt_def)
    next
      assume "x \<in> set G"
      then have "(k, n) \<in> set G" using x by simp
      then have n: "n = length (filter (\<lambda>t. K t = k) M)" "0 < n"
        using G [of k n] by blast+
      have "0 < length (filter (\<lambda>t. K t = k) M)" using n by (simp only:)
      then have "filter (\<lambda>t. K t = k) M \<noteq> []" by simp
      then obtain t0 where "t0 \<in> set (filter (\<lambda>t. K t = k) M)"
        by (cases "filter (\<lambda>t. K t = k) M") auto
      then have t0: "t0 \<in> set M" "K t0 = k" by simp_all
      define d where "d = day t0"
      have dD: "d \<in> set D" using t0(1) D(3) by (simp add: d_def)
      have k: "k = format_utc_day d" using t0(2) by (simp add: K_def d_def)
      have "filter (\<lambda>t. K t = k) M = filter (\<lambda>t. day t = d) M"
        unfolding k using Drange dD by (intro same_day) simp
      then have "n = cnt d" using n(1) by (simp add: cnt_def)
      then show "x \<in> set data'" unfolding x data'_def using dD k by auto
    qed
  qed
  have strict: "sorted_wrt (<) (map format_utc_day D)"
  proof -
    have "sorted_wrt (<) D" using D(1,2) by (simp add: strict_sorted_iff)
    then have "sorted_wrt (\<lambda>a b. format_utc_day a < format_utc_day b) D"
      by (rule sorted_wrt_mono_rel [rotated]) (use Drange format_utc_day_strict in blast)
    then show ?thesis by (simp add: sorted_wrt_map)
  qed
  have keys': "map fst data' = map format_utc_day D" by (simp add: data'_def comp_def)
  have s': "sorted (map fst data')" "distinct (map fst data')"
    using strict unfolding keys' by (simp_all add: strict_sorted_iff)
  have s: "sorted (map fst (sort_key fst G))" "distinct (map fst (sort_key fst G))"
    unfolding G_def by (rule sorted_sort_key, rule distinct_keys_sort_key, rule distinct_group_count)
  have "set (sort_key fst G) = set data'" using sets by simp
  then have eq: "sort_key fst G = data'"
    using s s' by (intro keyed_lists_unique)
  have cnt: "cnt d = length (filter (\<lambda>t. owner t = user_id req_user
                                           \<and> sevenDaysAgo tz now \<le> createdAt t
                                           \<and> utc_day (createdAt t) = d) (tasks st))" for d
    by (simp add: cnt_def M_def P_def day_def conj_commute conj_left_commute)
  have setD: "set D = {utc_day (createdAt t) | t.
                      t \<in> set (tasks st) \<and> owner t = user_id req_user
                      \<and> sevenDaysAgo tz now \<le> createdAt t}"
    unfolding D(3) by (auto simp: M_def P_def day_def)
  have "trends tz f now req_user st =
          Json (map (\<lambda>d. (format_utc_day d,
                          length (filter (\<lambda>t. owner t = user_id req_user
                                           \<and> sevenDaysAgo tz now \<le> createdAt t
                                           \<and> utc_day (createdAt t) = d) (tasks st))))
                  D)"
    unfolding run eq data'_def cnt ..
  then show ?thesis using D(1,2) setD by blast
qed

text \<open>
  For \<open>bob\<close> on 2025-06-15 at 15:06:40 UTC, on a server on UTC: the task of 2025-06-04
  is left out, the two tasks of 2025-06-15 are counted together, and 2025-06-12 (day
  20251) comes before 2025-06-15 (day 20254).
\<close>

theorem trends_window_witness:
  "trends utc_zone f_ok 1750000000000 bob st_an
     = Json [(''2025-06-12'', 1), (''2025-06-15'', 2)]
   \<and> (\<exists>days. sorted days \<and> distinct days
        \<and> set days = {utc_day (createdAt t) | t.
                        t \<in> set (tasks st_an) \<and> owner t = user_id bob
                        \<and> sevenDaysAgo utc_zone 1750000000000 \<le> createdAt t}
        \<and> [(''2025-06-12'', 1), (''2025-06-15'', 2)] =
            map (\<lambda>d. (format_utc_day d,
                       length (filter (\<lambda>t. owner t = user_id bob
                                        \<and> sevenDaysAgo utc_zone 1750000000000 \<le> createdAt t
                                        \<and> utc_day (createdAt t) = d) (tasks st_an))))
              days)
   \<and> format_utc_day 20251 = ''2025-06-12'' \<and> format_utc_day 20254 = ''2025-06-15''
   \<and> utc_day 1749700000000 = 20251 \<and> utc_day 1749950000000 = 20254
   \<and> utc_day 1749960000000 = 20254"
proof -
  have a: "\<not> aggregate_fails f_ok" by (simp add: f_ok_def)
  have d1: "utc_day 1749700000000 = 20251" and d2: "utc_day 1749950000000 = 20254"
    and d3: "utc_day 1749960000000 = 20254"
    by (simp_all add: utc_day_def msPerDay_def)
  have f1: "format_utc_day 20251 = ''2025-06-12''" and f2: "format_utc_day 20254 = ''2025-06-15''"
    by (simp_all add: format_utc_day_def civil_of_day_def format_Ymd_def digit_def
        month_lengths_def year_of_day.simps days_in_year_def leap_year_def)
  have r: "day_in_range 20251" "day_in_range 20254" by (simp_all add: day_in_range_def)
  have k6: "dateToString_Ymd 1749700000000 = Some ''2025-06-12''"
    using dateToString_Ymd_value [of 1749700000000] r by (simp add: d1 f1)
  have k4: "dateToString_Ymd 1749950000000 = Some ''2025-06-15''"
    using dateToString_Ymd_value [of 1749950000000] r by (simp add: d2 f2)
  have k7: "dateToString_Ymd 1749960000000 = Some ''2025-06-15''"
    using dateToString_Ymd_value [of 1749960000000] r by (simp add: d3 f2)
  have m: "filter (\<lambda>t. owner t = user_id bob \<and> sevenDaysAgo utc_zone 1750000000000 \<le> createdAt t)
             (tasks st_an)
           = [mk_task ''k4'' ''b2'' ''In Progress'' 1749950000000,
              mk_task ''k6'' ''b2'' ''Completed'' 1749700000000,
              mk_task ''k7'' ''b2'' ''Pending'' 1749960000000]"
    by (simp add: st_an_def mk_task_def bob_def sevenDaysAgo_def utc_zone_def msPerDay_def)
  have b: "\<forall>t \<in> set (tasks st_an).
           owner t = user_id bob \<and> sevenDaysAgo utc_zone 1750000000000 \<le> createdAt t
             \<longrightarrow> dateToString_Ymd (createdAt t) \<noteq> None"
  proof -
    have "\<forall>t \<in> set (filter (\<lambda>t. owner t = user_id bob
              \<and> sevenDaysAgo utc_zone 1750000000000 \<le> createdAt t) (tasks st_an)).
            dateToString_Ymd (createdAt t) \<noteq> None"
      unfolding m by (simp add: mk_task_def k4 k6 k7)
    then show ?thesis by simp
  qed
  have s: "sort_key fst [(''2025-06-15'', 2::nat), (''2025-06-12'', 1)]
             = [(''2025-06-12'', 1), (''2025-06-15'', 2)]" by code_simp
  have g: "group_count (\<lambda>k. k) [''2025-06-15'', ''2025-06-12'', ''2025-06-15'']
           = [(''2025-06-15'', 2), (''2025-06-12'', 1)]"
    by (simp add: group_count_def)
  have e: "trends utc_zone f_ok 1750000000000 bob st_an
             = Json [(''2025-06-12'', 1), (''2025-06-15'', 2)]"
    unfolding trends_def m by (simp add: f_ok_def mk_task_def k4 k6 k7 g s)
  from trends_window [OF a b] e
  have "\<exists>days. sorted days \<and> distinct days
        \<and> set days = {utc_day (createdAt t) | t.
                        t \<in> set (tasks st_an) \<and> owner t = user_id bob
                        \<and> sevenDaysAgo utc_zone 1750000000000 \<le> createdAt t}
        \<and> [(''2025-06-12'', 1), (''2025-06-15'', 2)] =
            map (\<lambda>d. (format_utc_day d,
                       length (filter (\<lambda>t. owner t = user_id bob
                                        \<and> sevenDaysAgo utc_zone 1750000000000 \<le> createdAt t
                                        \<and> utc_day (createdAt t) = d) (tasks st_an))))
              days"
    by (simp only: response.inject)
  then show ?thesis using e d1 d2 d3 f1 f2 by blast
qed

section \<open>Claims about the task records and the middleware\<close>

text \<open>
  C9. Every task has one owner and a status. In a state whose tasks all have a status
  of the enumeration, a create, update, share or delete leaves only tasks with a status
  of the enumeration, and every task of the new state either was in the old state
  under the same identifier with the same owner, or is the task the create operation
  made for the requester, with the status \<open>Pending\<close> when the body gave none.
\<close>

theorem operations_keep_owner_and_status:
  assumes "\<forall>t \<in> set (tasks st). status_ok t"
    and "t' \<in> set (tasks (apply_operation op st))"
  shows "status_ok t'
     \<and> ((\<exists>t \<in> set (tasks st). task_id t = task_id t' \<and> owner t = owner t')
         \<or> created_by op t')"
  using step_task_origin [OF assms(2)] assms(1) by blast

text \<open>\<open>bob\<close> creates a task without a status: it is his, and pending.\<close>

theorem operations_keep_owner_and_status_witness:
  "tasks (apply_operation (Create ''t9'' 5000 bob new_input) st0)
     = [t1, (mk_task ''t9'' ''b2'' ''Pending'' 5000)\<lparr>title := ''Plan''\<rparr>]
   \<and> status_ok ((mk_task ''t9'' ''b2'' ''Pending'' 5000)\<lparr>title := ''Plan''\<rparr>)
   \<and> created_by (Create ''t9'' 5000 bob new_input)
        ((mk_task ''t9'' ''b2'' ''Pending'' 5000)\<lparr>title := ''Plan''\<rparr>)"
proof -
  let ?op = "Create ''t9'' 5000 bob new_input"
  let ?t = "(mk_task ''t9'' ''b2'' ''Pending'' 5000)\<lparr>title := ''Plan''\<rparr>"
  have a: "\<forall>t \<in> set (tasks st0). status_ok t"
    by (simp add: st0_def t1_def status_ok_def TASK_STATUS_def)
  have e: "tasks (apply_operation ?op st0) = [t1, ?t]"
    by (simp add: createTask_def schema_valid_def TASK_STATUS_def new_input_def bob_def
        mk_task_def st0_def Let_def)
  then have b: "?t \<in> set (tasks (apply_operation ?op st0))" by simp
  have n: "\<not> (\<exists>t \<in> set (tasks st0). task_id t = task_id ?t \<and> owner t = owner ?t)"
    by (simp add: st0_def t1_def mk_task_def)
  show ?thesis
    using operations_keep_owner_and_status [OF a b] e n by blast
qed

text \<open>
  C10. Every route behind the middleware. If the Authorization header has no token in
  its second piece, or the token does not verify, or the identifier in the token
  resolves to no user, the middleware answers 401 and the routes (share, shared list,
  overview, trends, and any handler mounted behind the middleware) answer just that and
  leave the state as it was, whatever the handler is. The middleware answers with no
  status other than 401. When it calls the handler, the user it passes is a user of the
  store whose identifier is the one in the verified token, and the route is the handler
  run for that user.
\<close>

theorem authMiddleware_guards:
  "((token_of a = None \<or> token_of a = Some []
      \<or> (\<exists>tok. token_of a = Some tok
            \<and> (verify tok = None
                \<or> (\<exists>j. verify tok = Some j \<and> findUserById j (users st) = None)))) \<longrightarrow>
      (\<exists>m. authMiddleware verify f a (users st) = Respond 401 m
          \<and> share_route verify f now a i u st = (Status 401 m, st)
          \<and> shared_route verify f a st = (Status 401 m, st)
          \<and> overview_route verify f a st = (Status 401 m, st)
          \<and> trends_route verify tz f now a st = (Status 401 m, st)
          \<and> (\<forall>h. route (authMiddleware verify f a (users st)) h st = (Status 401 m, st))))
   \<and> (\<forall>n m. authMiddleware verify f a (users st) = Respond n m \<longrightarrow> n = 401)
   \<and> (\<forall>usr. authMiddleware verify f a (users st) = Next usr \<longrightarrow>
          usr \<in> set (users st)
          \<and> (\<exists>tok. token_of a = Some tok \<and> tok \<noteq> [] \<and> verify tok = Some (user_id usr))
          \<and> share_route verify f now a i u st = share f now usr i u st
          \<and> shared_route verify f a st = (shared f usr st, st)
          \<and> overview_route verify f a st = (overview f usr st, st)
          \<and> trends_route verify tz f now a st = (trends tz f now usr st, st)
          \<and> (\<forall>h. route (authMiddleware verify f a (users st)) h st = h usr st))"
proof (intro conjI allI impI)
  assume rej: "token_of a = None \<or> token_of a = Some []
      \<or> (\<exists>tok. token_of a = Some tok
            \<and> (verify tok = None
                \<or> (\<exists>j. verify tok = Some j \<and> findUserById j (users st) = None)))"
  then have "\<exists>m. authMiddleware verify f a (users st) = Respond 401 m"
    by (auto simp: authMiddleware_def split: option.splits)
  then obtain m where m: "authMiddleware verify f a (users st) = Respond 401 m" ..
  show "\<exists>m. authMiddleware verify f a (users st) = Respond 401 m
          \<and> share_route verify f now a i u st = (Status 401 m, st)
          \<and> shared_route verify f a st = (Status 401 m, st)
          \<and> overview_route verify f a st = (Status 401 m, st)
          \<and> trends_route verify tz f now a st = (Status 401 m, st)
          \<and> (\<forall>h. route (authMiddleware verify f a (users st)) h st = (Status 401 m, st))"
    by (rule exI [of _ m])
      (simp add: share_route_def shared_route_def overview_route_def trends_route_def
        route_def m)
next
  fix n m
  assume "authMiddleware verify f a (users st) = Respond n m"
  then show "n = 401"
    by (auto simp: authMiddleware_def split: option.splits if_splits)
next
  fix usr
  assume ok: "authMiddleware verify f a (users st) = Next usr"
  then obtain tok where tok: "token_of a = Some tok" "tok \<noteq> []"
      "verify tok = Some (user_id usr)" "findUserById (user_id usr) (users st) = Some usr"
    by (auto simp: authMiddleware_def split: option.splits if_splits dest: findUserById_mem)
  show "usr \<in> set (users st)" using findUserById_mem tok(4) by blast
  show "\<exists>tok. token_of a = Some tok \<and> tok \<noteq> [] \<and> verify tok = Some (user_id usr)"
    using tok by blast
  show "share_route verify f now a i u st = share f now usr i u st"
    by (simp add: share_route_def route_def ok)
  show "shared_route verify f a st = (shared f usr st, st)"
    by (simp add: shared_route_def route_def ok)
  show "overview_route verify f a st = (overview f usr st, st)"
    by (simp add: overview_route_def route_def ok)
  show "trends_route verify tz f now a st = (trends tz f now usr st, st)"
    by (simp add: trends_route_def route_def ok)
  show "route (authMiddleware verify f a (users st)) h st = h usr st" for h :: "user \<Rightarrow> server_state \<Rightarrow> 'c response \<times> server_state"
    by (simp add: route_def ok)
qed

text \<open>
  Without a header, with a header of one piece, with a token that does not verify and
  with the token of a user who is not in the store, the share route answers 401 and
  the task stays unshared; with the token of \<open>alice\<close> the share handler runs for her.
\<close>

theorem authMiddleware_guards_witness:
  "share_route verify_demo f_ok 2000 None ''t1'' ''b2'' st0
     = (Status 401 ''No token provided'', st0)
   \<and> share_route verify_demo f_ok 2000 (Some ''Bearer'') ''t1'' ''b2'' st0
     = (Status 401 ''No token provided'', st0)
   \<and> share_route verify_demo f_ok 2000 (Some ''Bearer forged'') ''t1'' ''b2'' st0
     = (Status 401 ''Invalid token'', st0)
   \<and> share_route verify_demo f_ok 2000 (Some ''Bearer tok-z'') ''t1'' ''b2'' st0
     = (Status 401 ''Invalid token'', st0)
   \<and> alice \<in> set (users st0)
   \<and> share_route verify_demo f_ok 2000 (Some ''Bearer tok-a'') ''t1'' ''b2'' st0
     = share f_ok 2000 alice ''t1'' ''b2'' st0"
proof -
  have r1: "token_of None = None"
    by (simp add: token_of_def)
  have m1: "authMiddleware verify_demo f_ok None (users st0) = Respond 401 ''No token provided''"
    by (simp add: authMiddleware_def token_of_def)
  have g1: "share_route verify_demo f_ok 2000 None ''t1'' ''b2'' st0
     = (Status 401 ''No token provided'', st0)"
    using authMiddleware_guards [where verify = verify_demo and a = None and st = st0
        and f = f_ok and now = 2000 and i = "''t1''" and u = "''b2''" and tz = utc_zone]
      r1 m1 by auto
  have g2: "share_route verify_demo f_ok 2000 (Some ''Bearer'') ''t1'' ''b2'' st0
     = (Status 401 ''No token provided'', st0)"
    by (simp add: share_route_def route_def authMiddleware_def token_of_def)
  have g3: "share_route verify_demo f_ok 2000 (Some ''Bearer forged'') ''t1'' ''b2'' st0
     = (Status 401 ''Invalid token'', st0)"
    by (simp add: share_route_def route_def authMiddleware_def token_of_def verify_demo_def)
  have g4: "share_route verify_demo f_ok 2000 (Some ''Bearer tok-z'') ''t1'' ''b2'' st0
     = (Status 401 ''Invalid token'', st0)"
    by (simp add: share_route_def route_def authMiddleware_def token_of_def verify_demo_def
        findUserById_def st0_def alice_def bob_def f_ok_def)
  have m5: "authMiddleware verify_demo f_ok (Some ''Bearer tok-a'') (users st0) = Next alice"
    by (simp add: authMiddleware_def token_of_def verify_demo_def
        findUserById_def st0_def alice_def bob_def f_ok_def)
  have g5: "alice \<in> set (users st0)
     \<and> share_route verify_demo f_ok 2000 (Some ''Bearer tok-a'') ''t1'' ''b2'' st0
         = share f_ok 2000 alice ''t1'' ''b2'' st0"
    using authMiddleware_guards [where verify = verify_demo and a = "Some ''Bearer tok-a''"
        and st = st0 and f = f_ok and now = 2000 and i = "''t1''" and u = "''b2''"
        and tz = utc_zone] m5 by blast
  show ?thesis using g1 g2 g3 g4 g5 by blast
qed

end
